theory Spec2Isabelle
  imports Complex_Main "HOL-Library.AList"
begin

section \<open>Fee-estimate analysis: the data loader, the range trimmer and the classifier\<close>

text \<open>
  A shallow embedding of \<^verbatim>\<open>src/util.py\<close>. Python integers are \<open>int\<close>. A Python
  \<^verbatim>\<open>float\<close> is an IEEE 754 binary64 value: a finite double is given by the rational
  number it denotes, and every arithmetic result is rounded to the nearest double, ties to
  even. A raised exception is the \<open>Inl\<close> branch of a sum; \<open>Inl e\<close> as the result of a
  function means that the exception leaves that function uncaught.
\<close>

subsection \<open>Exceptions\<close>

datatype py_error =
  IOError | ValueError | KeyError | TypeError | ZeroDivisionError | OverflowError

subsection \<open>Floats\<close>

text \<open>
  A float is a finite double, an infinity or a NaN. The sign of a zero is not kept: what
  the functions below return is an \<^verbatim>\<open>int\<close>, or a percentage of a count that is not
  negative, and a zero divisor raises whatever its sign.
\<close>

datatype pyfloat = Fin rat | PInf | NInf | NaN

text \<open>The nearest integer, the even one of two that are equally near.\<close>

definition round_half_even :: "rat \<Rightarrow> int" where
  "round_half_even m =
     (let f = \<lfloor>m\<rfloor>; d = m - of_int f
      in if d < 1 / 2 then f
         else if 1 / 2 < d then f + 1
         else if even f then f else f + 1)"

text \<open>
  The binary exponent of a positive rational \<open>r\<close>, the \<open>e\<close> with
  \<open>2 ^ e \<le> r < 2 ^ (e + 1)\<close>: the number of halvings that bring \<open>r\<close> below 2, or minus the
  number of doublings that bring it up to 1.
\<close>

function halvings :: "rat \<Rightarrow> nat" where
  "halvings r = (if r < 2 then 0 else Suc (halvings (r / 2)))"
  by pat_completeness auto
termination
proof (relation "measure (\<lambda>r. nat \<lfloor>r\<rfloor>)")
  fix r :: rat
  assume "\<not> r < 2"
  then have r: "2 \<le> r" by simp
  have "r / 2 \<le> r - 1" using r by simp
  also have "\<dots> < of_int \<lfloor>r\<rfloor>" by linarith
  finally have "\<lfloor>r / 2\<rfloor> < \<lfloor>r\<rfloor>" by (simp add: floor_less_iff)
  moreover have "0 < \<lfloor>r\<rfloor>" using r by (simp add: less_floor_iff)
  ultimately show "(r / 2, r) \<in> measure (\<lambda>r. nat \<lfloor>r\<rfloor>)"
    by simp
qed simp

function doublings :: "rat \<Rightarrow> nat" where
  "doublings r = (if r \<le> 0 \<or> 1 \<le> r then 0 else Suc (doublings (r * 2)))"
  by pat_completeness auto
termination
proof (relation "measure (\<lambda>r. nat \<lceil>1 / r\<rceil>)")
  fix r :: rat
  assume "\<not> (r \<le> 0 \<or> 1 \<le> r)"
  then have r: "0 < r" "r < 1" by simp_all
  then have "1 < 1 / r" by simp
  then have c: "2 \<le> \<lceil>1 / r\<rceil>" by (simp add: le_ceiling_iff)
  have "1 / (r * 2) \<le> of_int \<lceil>1 / r\<rceil> / 2"
    using le_of_int_ceiling [of "1 / r"] by (simp add: field_simps)
  also have "\<dots> \<le> of_int (\<lceil>1 / r\<rceil> - 1)"
    using c by simp
  finally have "1 / (r * 2) \<le> of_int (\<lceil>1 / r\<rceil> - 1)" .
  then have "\<lceil>1 / (r * 2)\<rceil> \<le> \<lceil>1 / r\<rceil> - 1"
    by (simp only: ceiling_le_iff)
  with c have "nat \<lceil>1 / (r * 2)\<rceil> < nat \<lceil>1 / r\<rceil>"
    by linarith
  then show "(r * 2, r) \<in> measure (\<lambda>r. nat \<lceil>1 / r\<rceil>)"
    by (simp only: in_measure)
qed simp

declare halvings.simps [simp del] doublings.simps [simp del]

definition exponent :: "rat \<Rightarrow> int" where
  "exponent r = (if 1 \<le> r then int (halvings r) else - int (doublings r))"

text \<open>
  The spacing of the doubles around a positive \<open>a\<close>: 52 binary places below its
  exponent, and \<open>2 ^ (- 1074)\<close> throughout the subnormal range.
\<close>

definition quantum :: "rat \<Rightarrow> rat" where
  "quantum a = 2 powi (max (exponent a) (- 1022) - 52)"

definition round_mag :: "rat \<Rightarrow> rat" where
  "round_mag a = of_int (round_half_even (a / quantum a)) * quantum a"

text \<open>
  Rounding a rational to a double. A magnitude that rounds to \<open>2 ^ 1024\<close> or more
  overflows to an infinity.
\<close>

definition round_double :: "rat \<Rightarrow> pyfloat" where
  "round_double r =
     (if r = 0 then Fin 0
      else let m = round_mag \<bar>r\<bar>
           in if 2 powi 1024 \<le> m then (if 0 < r then PInf else NInf)
              else Fin (if 0 < r then m else - m))"

subsection \<open>Python arithmetic on floats\<close>

text \<open>
  An \<^verbatim>\<open>int\<close> operand of a float operation, and the argument of \<^verbatim>\<open>float(n)\<close>: the
  nearest double, OverflowError when there is none.
\<close>

definition int_to_float :: "int \<Rightarrow> py_error + pyfloat" where
  "int_to_float n =
     (case round_double (of_int n) of Fin x \<Rightarrow> Inr (Fin x) | _ \<Rightarrow> Inl OverflowError)"

text \<open>\<^verbatim>\<open>a / b\<close> on two \<^verbatim>\<open>int\<close>s: the exact quotient, rounded once.\<close>

definition int_truediv :: "int \<Rightarrow> int \<Rightarrow> py_error + pyfloat" where
  "int_truediv a b =
     (if b = 0 then Inl ZeroDivisionError
      else case round_double (of_int a / of_int b) of
             Fin x \<Rightarrow> Inr (Fin x)
           | _ \<Rightarrow> Inl OverflowError)"

text \<open>The IEEE quotient and product; the quotient is for a divisor that is not zero.\<close>

fun float_quot :: "pyfloat \<Rightarrow> pyfloat \<Rightarrow> pyfloat" where
  "float_quot NaN y = NaN"
| "float_quot x NaN = NaN"
| "float_quot (Fin x) (Fin y) = round_double (x / y)"
| "float_quot (Fin x) PInf = Fin 0"
| "float_quot (Fin x) NInf = Fin 0"
| "float_quot PInf (Fin y) = (if 0 < y then PInf else NInf)"
| "float_quot NInf (Fin y) = (if 0 < y then NInf else PInf)"
| "float_quot PInf PInf = NaN"
| "float_quot PInf NInf = NaN"
| "float_quot NInf PInf = NaN"
| "float_quot NInf NInf = NaN"

fun float_mul :: "pyfloat \<Rightarrow> pyfloat \<Rightarrow> pyfloat" where
  "float_mul NaN y = NaN"
| "float_mul x NaN = NaN"
| "float_mul (Fin x) (Fin y) = round_double (x * y)"
| "float_mul (Fin x) PInf = (if x = 0 then NaN else if 0 < x then PInf else NInf)"
| "float_mul (Fin x) NInf = (if x = 0 then NaN else if 0 < x then NInf else PInf)"
| "float_mul PInf (Fin y) = (if y = 0 then NaN else if 0 < y then PInf else NInf)"
| "float_mul NInf (Fin y) = (if y = 0 then NaN else if 0 < y then NInf else PInf)"
| "float_mul PInf PInf = PInf"
| "float_mul PInf NInf = NInf"
| "float_mul NInf PInf = NInf"
| "float_mul NInf NInf = PInf"

text \<open>\<^verbatim>\<open>x / y\<close> on floats: a zero divisor raises, whatever \<open>x\<close> is.\<close>

definition float_div :: "pyfloat \<Rightarrow> pyfloat \<Rightarrow> py_error + pyfloat" where
  "float_div x y = (if y = Fin 0 then Inl ZeroDivisionError else Inr (float_quot x y))"

text \<open>
  \<^verbatim>\<open>int(x)\<close> on a float: the fractional part is dropped, towards zero; an infinity
  raises OverflowError and a NaN ValueError.
\<close>

definition trunc :: "rat \<Rightarrow> int" where
  "trunc x = (if x < 0 then - \<lfloor>- x\<rfloor> else \<lfloor>x\<rfloor>)"

fun py_int :: "pyfloat \<Rightarrow> py_error + int" where
  "py_int (Fin x) = Inr (trunc x)"
| "py_int PInf = Inl OverflowError"
| "py_int NInf = Inl OverflowError"
| "py_int NaN = Inl ValueError"

subsection \<open>Parsed JSON\<close>

text \<open>
  What \<^verbatim>\<open>json.load\<close> returns: an integer literal is an \<^verbatim>\<open>int\<close>, a literal with a
  fraction or an exponent is a \<^verbatim>\<open>float\<close> (an infinity when it is too large), and
  \<^verbatim>\<open>NaN\<close> and \<^verbatim>\<open>Infinity\<close> are read as well. An object is kept as its list of
  members; \<open>map_of\<close> reads a member by name.
\<close>

datatype json =
    JNull
  | JBool bool
  | JInt int
  | JFloat pyfloat
  | JString string
  | JArray "json list"
  | JObject "(string \<times> json) list"

text \<open>
  \<^verbatim>\<open>float(v)\<close>. The parser of numeric strings is Python's own and is a parameter
  \<open>pf\<close>: \<open>pf s = Some x\<close> when \<^verbatim>\<open>float(s)\<close> is \<open>x\<close>, \<open>None\<close> when it raises
  ValueError. \<^verbatim>\<open>None\<close>, lists and dicts raise TypeError; a bool is a number.
\<close>

fun py_float :: "(string \<Rightarrow> pyfloat option) \<Rightarrow> json \<Rightarrow> py_error + pyfloat" where
  "py_float pf (JInt n) = int_to_float n"
| "py_float pf (JFloat x) = Inr x"
| "py_float pf (JBool b) = Inr (Fin (if b then 1 else 0))"
| "py_float pf (JString s) = (case pf s of None \<Rightarrow> Inl ValueError | Some x \<Rightarrow> Inr x)"
| "py_float pf JNull = Inl TypeError"
| "py_float pf (JArray xs) = Inl TypeError"
| "py_float pf (JObject kvs) = Inl TypeError"

text \<open>\<^verbatim>\<open>v[key]\<close> with a string key: only a dict can be read that way.\<close>

fun subscript :: "json \<Rightarrow> string \<Rightarrow> py_error + json" where
  "subscript (JObject kvs) key = (case map_of kvs key of None \<Rightarrow> Inl KeyError | Some v \<Rightarrow> Inr v)"
| "subscript v key = Inl TypeError"

subsection \<open>The unit converter\<close>

text \<open>\<^verbatim>\<open>int(float(sats_per_kb) / 1000)\<close>; the divisor is the double 1000.0.\<close>

definition sats_per_kb_to_sats_per_byte ::
    "(string \<Rightarrow> pyfloat option) \<Rightarrow> json \<Rightarrow> py_error + int" where
  "sats_per_kb_to_sats_per_byte pf sats_per_kb =
     (case py_float pf sats_per_kb of
        Inl e \<Rightarrow> Inl e
      | Inr x \<Rightarrow>
          (case float_div x (Fin 1000) of
             Inl e \<Rightarrow> Inl e
           | Inr y \<Rightarrow> py_int y))"

text \<open>\<^verbatim>\<open>int(float(v))\<close>, as the loaders apply it to heights and targets.\<close>

definition int_float :: "(string \<Rightarrow> pyfloat option) \<Rightarrow> json \<Rightarrow> py_error + int" where
  "int_float pf v = (case py_float pf v of Inl e \<Rightarrow> Inl e | Inr x \<Rightarrow> py_int x)"

subsection \<open>The data loader\<close>

record estimate =
  conf_target :: int
  block_height :: int
  conservative_fee_rate :: int
  economic_fee_rate :: int

record block =
  conf_height :: int
  p_5 :: int
  p_50 :: int

text \<open>
  One element of the list comprehension of \<^verbatim>\<open>read_fees\<close>: the four members are read in
  the order of the dict display, and the first exception ends the evaluation.
\<close>

definition read_fee :: "(string \<Rightarrow> pyfloat option) \<Rightarrow> json \<Rightarrow> py_error + estimate" where
  "read_fee pf e =
     (case subscript e ''conf_target'' of Inl x \<Rightarrow> Inl x | Inr v1 \<Rightarrow>
      case int_float pf v1 of Inl x \<Rightarrow> Inl x | Inr ct \<Rightarrow>
      case subscript e ''block_height'' of Inl x \<Rightarrow> Inl x | Inr v2 \<Rightarrow>
      case int_float pf v2 of Inl x \<Rightarrow> Inl x | Inr bh \<Rightarrow>
      case subscript e ''conservative_fee_rate'' of Inl x \<Rightarrow> Inl x | Inr v3 \<Rightarrow>
      case sats_per_kb_to_sats_per_byte pf v3 of Inl x \<Rightarrow> Inl x | Inr cf \<Rightarrow>
      case subscript e ''economic_fee_rate'' of Inl x \<Rightarrow> Inl x | Inr v4 \<Rightarrow>
      case sats_per_kb_to_sats_per_byte pf v4 of Inl x \<Rightarrow> Inl x | Inr ef \<Rightarrow>
      Inr \<lparr>conf_target = ct, block_height = bh,
           conservative_fee_rate = cf, economic_fee_rate = ef\<rparr>)"

fun read_fees :: "(string \<Rightarrow> pyfloat option) \<Rightarrow> json list \<Rightarrow> py_error + estimate list" where
  "read_fees pf [] = Inr []"
| "read_fees pf (e # es) =
     (case read_fee pf e of Inl x \<Rightarrow> Inl x | Inr r \<Rightarrow>
      case read_fees pf es of Inl x \<Rightarrow> Inl x | Inr rs \<Rightarrow> Inr (r # rs))"

text \<open>
  \<^verbatim>\<open>read_and_process_file\<close>. The first argument is what opening the file and
  \<^verbatim>\<open>json.load\<close> give: \<open>Inl IOError\<close> for a file that cannot be read, \<open>Inl ValueError\<close>
  for text that is not JSON, the parsed list otherwise. The handler names IOError and
  ValueError; every other exception passes through it.
\<close>

definition read_and_process_file ::
    "py_error + json list \<Rightarrow> (json list \<Rightarrow> py_error + 'a list) \<Rightarrow> py_error + 'a list" where
  "read_and_process_file file read_function =
     (case (case file of Inl e \<Rightarrow> Inl e | Inr data \<Rightarrow> read_function data) of
        Inr r \<Rightarrow> Inr r
      | Inl e \<Rightarrow> if e = IOError \<or> e = ValueError then Inr [] else Inl e)"

text \<open>
  The body of the \<^verbatim>\<open>try\<close> of \<^verbatim>\<open>read_blocks\<close>: the height is read twice, then the two
  percentiles.
\<close>

definition read_block :: "(string \<Rightarrow> pyfloat option) \<Rightarrow> json \<Rightarrow> py_error + int \<times> block" where
  "read_block pf b =
     (case subscript b ''block_height'' of Inl x \<Rightarrow> Inl x | Inr v1 \<Rightarrow>
      case int_float pf v1 of Inl x \<Rightarrow> Inl x | Inr height \<Rightarrow>
      case subscript b ''block_height'' of Inl x \<Rightarrow> Inl x | Inr v2 \<Rightarrow>
      case int_float pf v2 of Inl x \<Rightarrow> Inl x | Inr ch \<Rightarrow>
      case subscript b ''p_5'' of Inl x \<Rightarrow> Inl x | Inr v3 \<Rightarrow>
      case sats_per_kb_to_sats_per_byte pf v3 of Inl x \<Rightarrow> Inl x | Inr p5 \<Rightarrow>
      case subscript b ''p_50'' of Inl x \<Rightarrow> Inl x | Inr v4 \<Rightarrow>
      case sats_per_kb_to_sats_per_byte pf v4 of Inl x \<Rightarrow> Inl x | Inr p50 \<Rightarrow>
      Inr (height, \<lparr>conf_height = ch, p_5 = p5, p_50 = p50\<rparr>))"

text \<open>
  The loop of \<^verbatim>\<open>read_blocks\<close>, with the dict built so far and the list of the
  diagnostics printed so far (one entry, the exception, per \<^verbatim>\<open>print\<close>). The handler
  names ValueError and KeyError.
\<close>

fun read_blocks_loop ::
    "(string \<Rightarrow> pyfloat option) \<Rightarrow> json list \<Rightarrow> (int \<rightharpoonup> block) \<times> py_error list
       \<Rightarrow> py_error + (int \<rightharpoonup> block) \<times> py_error list" where
  "read_blocks_loop pf [] st = Inr st"
| "read_blocks_loop pf (b # bs) (filtered_blocks, printed) =
     (case read_block pf b of
        Inr (height, filtered_block) \<Rightarrow>
          read_blocks_loop pf bs (filtered_blocks(height \<mapsto> filtered_block), printed)
      | Inl e \<Rightarrow>
          if e = ValueError \<or> e = KeyError
          then read_blocks_loop pf bs (filtered_blocks, printed @ [e])
          else Inl e)"

definition read_blocks ::
    "(string \<Rightarrow> pyfloat option) \<Rightarrow> json list \<Rightarrow> py_error + (int \<rightharpoonup> block) \<times> py_error list" where
  "read_blocks pf blocks_dict = read_blocks_loop pf blocks_dict (Map.empty, [])"

subsection \<open>The range trimmer\<close>

function sanity_check_data :: "estimate list \<Rightarrow> int \<Rightarrow> estimate list" where
  "sanity_check_data estimates maximum_block_height =
     (if length estimates > 0 \<and> maximum_block_height - 1008 < block_height (last estimates)
      then sanity_check_data (butlast estimates) maximum_block_height
      else estimates)"
  by pat_completeness auto
termination
  by (relation "measure (\<lambda>(estimates, m). length estimates)") auto

declare sanity_check_data.simps [simp del]

subsection \<open>The classifier\<close>

text \<open>
  The three flags of one mode, \<^verbatim>\<open>[False, False, False]\<close> in the source with the
  positions 0, 1 and 2 named by its comment: underpaid, overpaid, within the range.
\<close>

record flags =
  underpaid_flag :: bool
  overpaid_flag :: bool
  within_flag :: bool

definition no_flags :: flags where
  "no_flags = \<lparr>underpaid_flag = False, overpaid_flag = False, within_flag = False\<rparr>"

text \<open>The two tests the loop body makes for one mode against one block.\<close>

definition check_block :: "int \<Rightarrow> block \<Rightarrow> flags \<Rightarrow> flags" where
  "check_block fee_rate b res =
     (let res1 = (if fee_rate < p_5 b then res\<lparr>underpaid_flag := True\<rparr> else res)
      in if fee_rate > p_50 b then res1\<lparr>overpaid_flag := True\<rparr>
         else res1\<lparr>within_flag := True\<rparr>)"

text \<open>The \<^verbatim>\<open>while curr_height < max_height\<close> loop.\<close>

function scan_window ::
    "estimate \<Rightarrow> (int \<rightharpoonup> block) \<Rightarrow> int \<Rightarrow> int \<Rightarrow> flags \<times> flags \<Rightarrow> flags \<times> flags" where
  "scan_window est blocks curr_height max_height (cons_res, econs_res) =
     (if curr_height < max_height then
        (case blocks curr_height of
           None \<Rightarrow> scan_window est blocks (curr_height + 1) max_height (cons_res, econs_res)
         | Some b \<Rightarrow>
             scan_window est blocks (curr_height + 1) max_height
               (check_block (conservative_fee_rate est) b cons_res,
                check_block (economic_fee_rate est) b econs_res))
      else (cons_res, econs_res))"
  by pat_completeness auto
termination
  by (relation "measure (\<lambda>(est, blocks, curr_height, max_height, res). nat (max_height - curr_height))")
     auto

declare scan_window.simps [simp del]

text \<open>The flags of one estimate: the window starts one above its height.\<close>

definition scan_estimate :: "estimate \<Rightarrow> (int \<rightharpoonup> block) \<Rightarrow> flags \<times> flags" where
  "scan_estimate est blocks =
     scan_window est blocks (block_height est + 1) (block_height est + conf_target est)
       (no_flags, no_flags)"

text \<open>
  A result dict: the buckets by confirmation target, in insertion order. \<open>AList.update\<close>
  overwrites a present key in place and appends an absent one, as a Python dict does.
\<close>

record bucket =
  underpaid :: int
  overpaid :: int
  within_the_range :: int

type_synonym results = "(int \<times> bucket) list"

definition initialize_results :: bucket where
  "initialize_results = \<lparr>underpaid = 0, overpaid = 0, within_the_range = 0\<rparr>"

definition increment :: "flags \<Rightarrow> bucket \<Rightarrow> bucket" where
  "increment res b =
     (if overpaid_flag res then b\<lparr>overpaid := overpaid b + 1\<rparr>
      else if within_flag res then b\<lparr>within_the_range := within_the_range b + 1\<rparr>
      else b\<lparr>underpaid := underpaid b + 1\<rparr>)"

definition update_results :: "flags \<Rightarrow> int \<Rightarrow> results \<Rightarrow> py_error + results" where
  "update_results res target result_dict =
     (case map_of result_dict target of
        None \<Rightarrow> Inl KeyError
      | Some b \<Rightarrow> Inr (AList.update target (increment res b) result_dict))"

definition ensure_bucket :: "int \<Rightarrow> results \<Rightarrow> results" where
  "ensure_bucket target result_dict =
     (if map_of result_dict target = None
      then AList.update target initialize_results result_dict
      else result_dict)"

text \<open>The body of \<^verbatim>\<open>for estimate in estimates\<close>.\<close>

definition process_estimate ::
    "estimate \<Rightarrow> (int \<rightharpoonup> block) \<Rightarrow> results \<times> results \<Rightarrow> py_error + results \<times> results" where
  "process_estimate est blocks rs =
     (let cons_result = ensure_bucket (conf_target est) (fst rs);
          econs_result = ensure_bucket (conf_target est) (snd rs);
          res = scan_estimate est blocks
      in case update_results (fst res) (conf_target est) cons_result of
           Inl e \<Rightarrow> Inl e
         | Inr cons_result' \<Rightarrow>
             (case update_results (snd res) (conf_target est) econs_result of
                Inl e \<Rightarrow> Inl e
              | Inr econs_result' \<Rightarrow> Inr (cons_result', econs_result')))"

fun classify_loop ::
    "estimate list \<Rightarrow> (int \<rightharpoonup> block) \<Rightarrow> results \<times> results \<Rightarrow> py_error + results \<times> results" where
  "classify_loop [] blocks rs = Inr rs"
| "classify_loop (est # ests) blocks rs =
     (case process_estimate est blocks rs of
        Inl e \<Rightarrow> Inl e
      | Inr rs' \<Rightarrow> classify_loop ests blocks rs')"

text \<open>
  A bucket after \<^verbatim>\<open>calculate_percentage\<close>: the three counts and the three
  \<^verbatim>\<open>"... perc"\<close> entries added to the same dict.
\<close>

record bucket_perc = bucket +
  underpaid_perc :: pyfloat
  overpaid_perc :: pyfloat
  within_the_range_perc :: pyfloat

text \<open>
  \<^verbatim>\<open>(count / total) * 100\<close>: the count becomes a float, the division by a zero total
  raises, and the factor is the double 100.0.
\<close>

definition percentage :: "pyfloat \<Rightarrow> int \<Rightarrow> py_error + pyfloat" where
  "percentage total' c =
     (case int_to_float c of
        Inl e \<Rightarrow> Inl e
      | Inr x \<Rightarrow>
          (case float_div x total' of
             Inl e \<Rightarrow> Inl e
           | Inr q \<Rightarrow> Inr (float_mul q (Fin 100))))"

definition add_percentages :: "pyfloat \<Rightarrow> bucket \<Rightarrow> py_error + bucket_perc" where
  "add_percentages total' b =
     (case percentage total' (underpaid b) of Inl e \<Rightarrow> Inl e | Inr u \<Rightarrow>
      case percentage total' (overpaid b) of Inl e \<Rightarrow> Inl e | Inr ov \<Rightarrow>
      case percentage total' (within_the_range b) of Inl e \<Rightarrow> Inl e | Inr w \<Rightarrow>
      Inr \<lparr>underpaid = underpaid b, overpaid = overpaid b,
           within_the_range = within_the_range b,
           underpaid_perc = u, overpaid_perc = ov, within_the_range_perc = w\<rparr>)"

fun calculate_percentage ::
    "pyfloat \<Rightarrow> results \<Rightarrow> py_error + (int \<times> bucket_perc) list" where
  "calculate_percentage total' [] = Inr []"
| "calculate_percentage total' ((target, b) # rest) =
     (case add_percentages total' b of Inl e \<Rightarrow> Inl e | Inr b' \<Rightarrow>
      case calculate_percentage total' rest of Inl e \<Rightarrow> Inl e | Inr rest' \<Rightarrow>
      Inr ((target, b') # rest'))"

definition calculate_percentages ::
    "estimate list \<Rightarrow> (int \<rightharpoonup> block)
       \<Rightarrow> py_error + (int \<times> bucket_perc) list \<times> (int \<times> bucket_perc) list" where
  "calculate_percentages estimates blocks =
     (case classify_loop estimates blocks ([], []) of
        Inl e \<Rightarrow> Inl e
      | Inr (cons_result, econs_result) \<Rightarrow>
          (case int_truediv (int (length estimates)) 12 of
             Inl e \<Rightarrow> Inl e
           | Inr total' \<Rightarrow>
               (case calculate_percentage total' cons_result of
                  Inl e \<Rightarrow> Inl e
                | Inr c \<Rightarrow>
                    (case calculate_percentage total' econs_result of
                       Inl e \<Rightarrow> Inl e
                     | Inr ec \<Rightarrow> Inr (c, ec)))))"

subsection \<open>Notions used to state the properties\<close>

text \<open>
  \<open>seen blocks lo hi P\<close>: some height \<open>h\<close> with \<open>lo \<le> h < hi\<close> has a block in the
  mapping, and that block satisfies \<open>P\<close>.
\<close>

definition seen :: "(int \<rightharpoonup> block) \<Rightarrow> int \<Rightarrow> int \<Rightarrow> (block \<Rightarrow> bool) \<Rightarrow> bool" where
  "seen blocks lo hi P = (\<exists>h b. lo \<le> h \<and> h < hi \<and> blocks h = Some b \<and> P b)"

text \<open>The flags of one mode after the heights from \<open>lo\<close> up to \<open>hi\<close>, \<open>hi\<close> excluded.\<close>

definition mode_flags :: "int \<Rightarrow> (int \<rightharpoonup> block) \<Rightarrow> int \<Rightarrow> int \<Rightarrow> flags \<Rightarrow> flags" where
  "mode_flags fee_rate blocks lo hi res =
     \<lparr>underpaid_flag = underpaid_flag res \<or> seen blocks lo hi (\<lambda>b. fee_rate < p_5 b),
      overpaid_flag = overpaid_flag res \<or> seen blocks lo hi (\<lambda>b. fee_rate > p_50 b),
      within_flag = within_flag res \<or> seen blocks lo hi (\<lambda>b. fee_rate \<le> p_50 b)\<rparr>"

text \<open>
  The counts of a target in a result dict; a target that has no bucket yet has the counts
  its bucket is created with.
\<close>

definition lookup_bucket :: "results \<Rightarrow> int \<Rightarrow> bucket" where
  "lookup_bucket result_dict target =
     (case map_of result_dict target of None \<Rightarrow> initialize_results | Some b \<Rightarrow> b)"

text \<open>
  The percentages as the specification words them: for every category,
  \<open>percentage = (category_count / total) * 100\<close>, in float arithmetic.
\<close>

definition spec_percentage :: "pyfloat \<Rightarrow> int \<Rightarrow> pyfloat" where
  "spec_percentage total' c =
     float_mul (float_quot (round_double (of_int c)) total') (Fin 100)"

definition with_percentages :: "pyfloat \<Rightarrow> bucket \<Rightarrow> bucket_perc" where
  "with_percentages total' b =
     \<lparr>underpaid = underpaid b, overpaid = overpaid b, within_the_range = within_the_range b,
      underpaid_perc = spec_percentage total' (underpaid b),
      overpaid_perc = spec_percentage total' (overpaid b),
      within_the_range_perc = spec_percentage total' (within_the_range b)\<rparr>"

text \<open>All counts of a result dict lie between 0 and \<open>k\<close>.\<close>

definition counts_upto :: "int \<Rightarrow> bucket \<Rightarrow> bool" where
  "counts_upto k b \<longleftrightarrow>
     0 \<le> underpaid b \<and> underpaid b \<le> k \<and> 0 \<le> overpaid b \<and> overpaid b \<le> k
     \<and> 0 \<le> within_the_range b \<and> within_the_range b \<le> k"

subsection \<open>Fixtures\<close>

text \<open>
  The estimate and the two blocks of the specification's worked example; the economic fee
  rate, which the example leaves open, is the argument.
\<close>

definition fixture_estimate :: "int \<Rightarrow> estimate" where
  "fixture_estimate e =
     \<lparr>conf_target = 2, block_height = 100, conservative_fee_rate = 10, economic_fee_rate = e\<rparr>"

definition fixture_blocks :: "int \<rightharpoonup> block" where
  "fixture_blocks =
     [101 \<mapsto> \<lparr>conf_height = 101, p_5 = 5, p_50 = 20\<rparr>,
      102 \<mapsto> \<lparr>conf_height = 102, p_5 = 12, p_50 = 20\<rparr>]"

text \<open>An estimate made at a given height, for the trimmer.\<close>

definition estimate_at :: "int \<Rightarrow> estimate" where
  "estimate_at h =
     \<lparr>conf_target = 2, block_height = h, conservative_fee_rate = 10, economic_fee_rate = 8\<rparr>"

text \<open>Twelve estimates at height 100: six of target 2, six of target 3.\<close>

definition twelve_estimates :: "estimate list" where
  "twelve_estimates =
     replicate 6 \<lparr>conf_target = 2, block_height = 100,
                  conservative_fee_rate = 10, economic_fee_rate = 25\<rparr>
     @ replicate 6 \<lparr>conf_target = 3, block_height = 100,
                    conservative_fee_rate = 10, economic_fee_rate = 25\<rparr>"

text \<open>A block record as the blocks file holds it, rates per 1000 bytes.\<close>

definition block_record :: "int \<Rightarrow> json \<Rightarrow> json \<Rightarrow> json" where
  "block_record h v5 v50 =
     JObject [(''block_height'', JInt h), (''p_5'', v5), (''p_50'', v50)]"

text \<open>A fee record without the member \<^verbatim>\<open>block_height\<close>.\<close>

definition fee_record_without_height :: json where
  "fee_record_without_height =
     JObject [(''conf_target'', JInt 2), (''conservative_fee_rate'', JInt 5000),
              (''economic_fee_rate'', JInt 3000)]"

definition fee_record :: "int \<Rightarrow> json \<Rightarrow> json" where
  "fee_record h v =
     JObject [(''conf_target'', JInt 2), (''block_height'', JInt h),
              (''conservative_fee_rate'', v), (''economic_fee_rate'', JInt 3000)]"

section \<open>Properties\<close>

subsection \<open>Rounding to a double\<close>

lemma halvings_bounds:
  "1 \<le> r \<Longrightarrow> 2 ^ halvings r \<le> r \<and> r < 2 ^ Suc (halvings r)"
proof (induction r rule: halvings.induct)
  case (1 r)
  show ?case
  proof (cases "r < 2")
    case True
    with 1(2) show ?thesis by (simp add: halvings.simps)
  next
    case False
    then have "1 \<le> r / 2" by simp
    with 1(1) False have "2 ^ halvings (r / 2) \<le> r / 2 \<and> r / 2 < 2 ^ Suc (halvings (r / 2))"
      by simp
    moreover have "halvings r = Suc (halvings (r / 2))"
      using False by (subst halvings.simps) simp
    ultimately show ?thesis by simp
  qed
qed

lemma doublings_bounds:
  "0 < r \<Longrightarrow> r < 1 \<Longrightarrow> 1 \<le> r * 2 ^ doublings r \<and> r * 2 ^ doublings r < 2"
proof (induction r rule: doublings.induct)
  case (1 r)
  have d: "doublings r = Suc (doublings (r * 2))"
    using 1(2,3) by (subst doublings.simps) simp
  show ?case
  proof (cases "r * 2 < 1")
    case True
    with 1 have "1 \<le> r * 2 * 2 ^ doublings (r * 2) \<and> r * 2 * 2 ^ doublings (r * 2) < 2"
      by simp
    with d show ?thesis by (simp add: mult.assoc)
  next
    case False
    then have "doublings (r * 2) = 0"
      by (subst doublings.simps) simp
    with d False 1(3) show ?thesis by simp
  qed
qed

lemma exponent_bounds:
  assumes "0 < r"
  shows "2 powi exponent r \<le> r \<and> r < 2 powi (exponent r + 1)"
proof (cases "1 \<le> r")
  case True
  then have e: "exponent r = int (halvings r)" by (simp add: exponent_def)
  have "exponent r + 1 = int (Suc (halvings r))" by (simp add: e)
  then show ?thesis
    using halvings_bounds [OF True] unfolding e [symmetric]
    by (simp only: e power_int_of_nat) 
next
  case False
  then have r: "r < 1" by simp
  let ?d = "doublings r"
  have e: "exponent r = - int ?d" using False by (simp add: exponent_def)
  have b: "1 \<le> r * 2 ^ ?d" "r * 2 ^ ?d < 2"
    using doublings_bounds [OF assms r] by simp_all
  have p: "(2::rat) powi (- int ?d) = 1 / 2 ^ ?d"
    by (simp add: power_int_minus_divide)
  have "1 \<le> ?d"
  proof (rule ccontr)
    assume "\<not> 1 \<le> ?d"
    then have "?d = 0" by simp
    with b r show False by simp
  qed
  then have p1: "(2::rat) powi (- int ?d + 1) = 2 / 2 ^ ?d"
    by (subst power_int_add) (simp_all add: power_int_minus_divide)
  from b show ?thesis
    unfolding e p p1 by (simp add: field_simps)
qed

lemma exponent_less:
  assumes "0 < r" "r < 2 powi k"
  shows "exponent r < k"
proof (rule ccontr)
  assume "\<not> exponent r < k"
  then have "(2::rat) powi k \<le> 2 powi exponent r"
    by (intro power_int_increasing) simp_all
  with exponent_bounds [OF assms(1)] assms(2) show False by simp
qed

lemma exponent_ge:
  assumes "0 < r" "2 powi k \<le> r"
  shows "k \<le> exponent r"
proof (rule ccontr)
  assume "\<not> k \<le> exponent r"
  then have "(2::rat) powi (exponent r + 1) \<le> 2 powi k"
    by (intro power_int_increasing) simp_all
  with exponent_bounds [OF assms(1)] assms(2) show False by simp
qed

lemma round_half_even_error: "\<bar>of_int (round_half_even m) - m\<bar> \<le> 1 / 2"
proof -
  have "of_int \<lfloor>m\<rfloor> \<le> m" "m < of_int \<lfloor>m\<rfloor> + 1" by linarith+
  then show ?thesis
    by (auto simp: round_half_even_def Let_def abs_le_iff)
qed

lemma round_half_even_of_int [simp]: "round_half_even (of_int k) = k"
  by (simp add: round_half_even_def)


lemma quantum_pos [simp]: "0 < quantum a"
  by (simp add: quantum_def)

lemma quantum_nonzero [simp]: "quantum a \<noteq> 0"
  by (metis quantum_pos less_irrefl)

lemma rat_of_int_less_power: "k < 2 ^ n \<Longrightarrow> rat_of_int k < 2 ^ n"
proof -
  assume "k < 2 ^ n"
  then have "rat_of_int k < rat_of_int (2 ^ n)" by (simp only: of_int_less_iff)
  then show ?thesis by simp
qed

lemma round_mag_error: "\<bar>round_mag a - a\<bar> \<le> quantum a / 2"
proof -
  define z where "z = round_half_even (a / quantum a)"
  have "round_mag a - a = (of_int z - a / quantum a) * quantum a"
    by (simp add: round_mag_def z_def left_diff_distrib)
  then have "\<bar>round_mag a - a\<bar> = \<bar>of_int z - a / quantum a\<bar> * \<bar>quantum a\<bar>"
    by (simp only: abs_mult)
  moreover have "\<bar>quantum a\<bar> = quantum a"
    using quantum_pos [of a] by (simp only: abs_of_pos)
  ultimately have "\<bar>round_mag a - a\<bar> = \<bar>of_int (round_half_even (a / quantum a)) - a / quantum a\<bar> * quantum a"
    by (simp only: z_def)
  also have "\<dots> \<le> 1 / 2 * quantum a"
    by (intro mult_right_mono round_half_even_error less_imp_le quantum_pos)
  finally show ?thesis by simp
qed

lemma round_mag_exact:
  assumes "a / quantum a = of_int k"
  shows "round_mag a = a"
proof -
  have "round_mag a = a / quantum a * quantum a"
    by (simp only: round_mag_def assms round_half_even_of_int)
  then show ?thesis by simp
qed

lemma quantum_normal:
  assumes "0 < a" "2 powi (- 1022) \<le> a"
  shows "quantum a = 2 powi (exponent a - 52)"
  using exponent_ge [OF assms] by (simp add: quantum_def max_def)

text \<open>Integers below \<open>2 ^ 53\<close> are doubles.\<close>

lemma round_mag_int:
  assumes "0 < k" "k < 2 ^ 53"
  shows "round_mag (of_int k) = of_int k"
proof -
  let ?a = "of_int k :: rat"
  have a: "0 < ?a" "1 \<le> ?a" using assms by simp_all
  have lo: "0 \<le> exponent ?a"
    using exponent_ge [of ?a 0] a by simp
  have "?a < 2 ^ 53" using assms(2) by (rule rat_of_int_less_power)
  then have "?a < 2 powi 53" by simp
  then have hi: "exponent ?a < 53"
    using exponent_less [of ?a 53] a by simp
  have "(2::rat) powi (- 1022) \<le> 1" by (simp add: power_int_minus_divide)
  with a have q: "quantum ?a = 2 powi (exponent ?a - 52)"
    by (intro quantum_normal) simp_all
  define n where "n = nat (52 - exponent ?a)"
  have e: "exponent ?a - 52 = - int n" using hi by (simp add: n_def)
  have "?a / quantum ?a = of_int (k * 2 ^ n)"
    unfolding q e by (simp add: power_int_minus_divide)
  then show ?thesis by (rule round_mag_exact)
qed

lemma round_double_int:
  assumes "\<bar>x\<bar> < 2 ^ 53"
  shows "round_double (of_int x) = Fin (of_int x)"
proof (cases "x = 0")
  case True
  then show ?thesis by (simp add: round_double_def)
next
  case False
  then have k: "0 < \<bar>x\<bar>" by simp
  have m: "round_mag \<bar>of_int x :: rat\<bar> = of_int \<bar>x\<bar>"
    using round_mag_int [OF k assms] by simp
  have "(of_int \<bar>x\<bar> :: rat) < 2 ^ 53"
    using assms by (rule rat_of_int_less_power)
  also have "\<dots> \<le> 2 ^ 1024" by (rule power_increasing) simp_all
  finally have "\<not> (2::rat) powi 1024 \<le> of_int \<bar>x\<bar>" by simp
  with False show ?thesis
    by (auto simp: round_double_def m Let_def)
qed

text \<open>The quotient of such an integer by 1000, rounded, has the integer part of the exact quotient.\<close>

lemma round_mag_thousandth:
  assumes "0 < k" "k < 2 ^ 53"
  shows "\<lfloor>round_mag (of_int k / 1000)\<rfloor> = k div 1000"
proof -
  let ?a = "of_int k / 1000 :: rat"
  define n where "n = k div 1000"
  define j where "j = k mod 1000"
  have k: "k = n * 1000 + j" and j: "0 \<le> j" "j < 1000"
    by (simp_all add: n_def j_def)
  have a: "?a = of_int n + of_int j / 1000"
    by (simp add: k)
  have pos: "0 < ?a" using assms by simp
  have "(2::rat) powi (- 10) \<le> 1 / 1000" by (simp add: power_int_minus_divide)
  also have "\<dots> \<le> ?a" using assms by simp
  finally have lo10: "(2::rat) powi (- 10) \<le> ?a" .
  then have lo: "- 10 \<le> exponent ?a"
    using exponent_ge [OF pos] by simp
  have "(of_int k :: rat) < 2 ^ 53"
    using assms(2) by (rule rat_of_int_less_power)
  then have "?a < 2 ^ 53 / 1000" by simp
  also have "\<dots> < 2 ^ 44" by simp
  finally have "?a < 2 powi 44" by simp
  then have hi: "exponent ?a < 44"
    using exponent_less [OF pos] by simp
  have "(2::rat) powi (- 1022) \<le> 2 powi (- 10)"
    by (intro power_int_increasing) simp_all
  with lo10 have q: "quantum ?a = 2 powi (exponent ?a - 52)"
    by (intro quantum_normal [OF pos]) simp
  have "(2::rat) powi (exponent ?a - 52) \<le> 2 powi (- 9)"
    using hi by (intro power_int_increasing) simp_all
  then have qb: "quantum ?a \<le> 1 / 512"
    by (simp add: q power_int_minus_divide)
  show ?thesis
  proof (cases "j = 0")
    case True
    define m where "m = nat (52 - exponent ?a)"
    have e: "exponent ?a - 52 = - int m" using hi by (simp add: m_def)
    have "?a / quantum ?a = of_int (n * 2 ^ m)"
      unfolding q e by (simp add: a True power_int_minus_divide)
    then have "round_mag ?a = ?a" by (rule round_mag_exact)
    then show ?thesis by (simp add: a True n_def)
  next
    case False
    with j have jb: "1 \<le> j" "j \<le> 999" by simp_all
    then have "rat_of_int 1 \<le> of_int j" "rat_of_int j \<le> of_int 999"
      by (simp_all only: of_int_le_iff)
    then have "(1::rat) \<le> of_int j" "(of_int j :: rat) \<le> 999"
      by simp_all
    then have ab: "of_int n + 1 / 1000 \<le> ?a" "?a \<le> of_int n + 999 / 1000"
      by (simp_all add: a)
    have "\<bar>round_mag ?a - ?a\<bar> \<le> 1 / 1024"
      using round_mag_error [of ?a] qb by simp
    then have "round_mag ?a - ?a \<le> 1 / 1024" "?a - round_mag ?a \<le> 1 / 1024"
      by (simp_all only: abs_le_iff minus_diff_eq)
    with ab have "of_int n \<le> round_mag ?a" "round_mag ?a < of_int n + 1"
      by linarith+
    then have "\<lfloor>round_mag ?a\<rfloor> = n" by (simp add: floor_eq_iff)
    then show ?thesis by (simp add: n_def)
  qed
qed

lemma round_mag_less:
  assumes "0 < a" "a < 2 powi 1023"
  shows "round_mag a < 2 powi 1024"
proof -
  have "exponent a < 1023" using assms by (rule exponent_less)
  then have "max (exponent a) (- 1022) - 52 \<le> 970" by simp
  then have "quantum a \<le> 2 powi 970"
    unfolding quantum_def by (intro power_int_increasing) simp_all
  also have "(2::rat) powi 970 \<le> 2 powi 1023"
    by (intro power_int_increasing) simp_all
  finally have q: "quantum a \<le> 2 powi 1023" .
  have "round_mag a - a \<le> quantum a / 2"
    using round_mag_error [of a] by (simp only: abs_le_iff)
  moreover have "quantum a / 2 < quantum a"
    using quantum_pos [of a] by simp
  ultimately have "round_mag a < 2 powi 1023 + 2 powi 1023"
    using assms(2) q by linarith
  also have "(2::rat) powi 1023 + 2 powi 1023 = 2 powi 1023 * 2" by simp
  also have "\<dots> = 2 powi (1023 + 1)" by (subst power_int_add) simp_all
  finally show ?thesis by simp
qed

lemma round_mag_pos:
  assumes "0 < a" "2 powi (- 1022) \<le> a"
  shows "0 < round_mag a"
proof -
  have q: "quantum a = 2 powi (exponent a - 52)"
    using assms by (rule quantum_normal)
  have "(2::rat) powi (exponent a - 52) < 2 powi exponent a"
    by (intro power_int_strict_increasing) simp_all
  with q have "quantum a < 2 powi exponent a" by simp
  moreover have "2 powi exponent a \<le> a"
    using exponent_bounds [OF assms(1)] by simp
  moreover have "a - round_mag a \<le> quantum a / 2"
    using round_mag_error [of a] by (simp only: abs_le_iff minus_diff_eq)
  moreover have "quantum a / 2 < quantum a"
    using quantum_pos [of a] by simp
  ultimately show ?thesis by linarith
qed

lemma round_double_finite:
  assumes "\<bar>r\<bar> < 2 powi 1023"
  shows "\<exists>x. round_double r = Fin x"
proof (cases "r = 0")
  case True
  then show ?thesis by (simp add: round_double_def)
next
  case False
  then have "0 < \<bar>r\<bar>" by simp
  then have "round_mag \<bar>r\<bar> < 2 powi 1024"
    using assms by (rule round_mag_less)
  then have "\<not> 2 powi 1024 \<le> round_mag \<bar>r\<bar>" by simp
  with False show ?thesis
    by (simp add: round_double_def Let_def)
qed

lemma round_double_pos:
  assumes "2 powi (- 1022) \<le> r" "r < 2 powi 1023"
  shows "\<exists>x. round_double r = Fin x \<and> 0 < x"
proof -
  have "(0::rat) < 2 powi (- 1022)" by simp
  with assms(1) have r: "0 < r" by linarith
  then have a: "\<bar>r\<bar> = r" by simp
  have "round_mag r < 2 powi 1024" using r assms(2) by (rule round_mag_less)
  then have "\<not> 2 powi 1024 \<le> round_mag r" by simp
  moreover have "0 < round_mag r" using r assms(1) by (rule round_mag_pos)
  ultimately show ?thesis
    using r by (simp add: round_double_def a Let_def)
qed

text \<open>Evaluating a rounding: the exponent and the rounded significand are given and checked.\<close>

lemma exponent_eqI:
  assumes "0 < r" "2 powi e \<le> r" "r < 2 powi (e + 1)"
  shows "exponent r = e"
proof -
  have "e \<le> exponent r" using assms(1,2) by (rule exponent_ge)
  moreover have "exponent r < e + 1" using assms(1,3) by (rule exponent_less)
  ultimately show ?thesis by simp
qed

lemma round_half_even_eqI:
  assumes "\<bar>of_int z - m\<bar> < 1 / 2"
  shows "round_half_even m = z"
proof -
  have f: "of_int \<lfloor>m\<rfloor> \<le> m" "m < of_int \<lfloor>m\<rfloor> + 1" by linarith+
  from assms have z: "of_int z - 1 / 2 < m" "m < of_int z + 1 / 2"
    by linarith+
  from f z have "rat_of_int \<lfloor>m\<rfloor> < of_int z + 1 / 2" "rat_of_int z - 3 / 2 < of_int \<lfloor>m\<rfloor>"
    by linarith+
  then have "rat_of_int \<lfloor>m\<rfloor> < of_int (z + 1)" "rat_of_int (z - 2) < of_int \<lfloor>m\<rfloor>"
    by simp_all
  then have "\<lfloor>m\<rfloor> < z + 1" "z - 2 < \<lfloor>m\<rfloor>"
    by (simp_all only: of_int_less_iff)
  then consider "\<lfloor>m\<rfloor> = z" | "\<lfloor>m\<rfloor> = z - 1" by linarith
  then show ?thesis
  proof cases
    case 1
    with z have "m - of_int \<lfloor>m\<rfloor> < 1 / 2" by simp
    with 1 show ?thesis by (simp add: round_half_even_def Let_def)
  next
    case 2
    with z have "1 / 2 < m - of_int \<lfloor>m\<rfloor>" by simp
    with 2 show ?thesis by (simp add: round_half_even_def Let_def)
  qed
qed

lemma round_double_normal_value:
  assumes "2 powi e \<le> \<bar>r\<bar>" "\<bar>r\<bar> < 2 powi (e + 1)" "- 1022 \<le> e" "e < 1023"
    "round_half_even (\<bar>r\<bar> / 2 powi (e - 52)) = z"
  shows "round_double r = Fin ((if 0 < r then 1 else - 1) * (of_int z * 2 powi (e - 52)))"
proof -
  have "(0::rat) < 2 powi e" by simp
  with assms(1) have a: "0 < \<bar>r\<bar>" by linarith
  then have r: "r \<noteq> 0" by simp
  have ex: "exponent \<bar>r\<bar> = e" using a assms(1,2) by (rule exponent_eqI)
  have q: "quantum \<bar>r\<bar> = 2 powi (e - 52)"
    using assms(3) by (simp add: quantum_def ex max_def)
  have m: "round_mag \<bar>r\<bar> = of_int z * 2 powi (e - 52)"
    unfolding round_mag_def q by (simp only: assms(5))
  have "(2::rat) powi (e + 1) \<le> 2 powi 1023"
    using assms(4) by (intro power_int_increasing) simp_all
  with assms(2) have "\<bar>r\<bar> < 2 powi 1023" by linarith
  with a have "round_mag \<bar>r\<bar> < 2 powi 1024" by (rule round_mag_less)
  then have n: "(2 powi 1024 \<le> round_mag \<bar>r\<bar>) = False" by simp
  show ?thesis
  proof (cases "0 < r")
    case True
    then show ?thesis
      using r m n by (simp add: round_double_def Let_def)
  next
    case False
    then show ?thesis
      using r m n by (simp add: round_double_def Let_def)
  qed
qed

lemma round_double_normal:
  assumes "2 powi e \<le> \<bar>r\<bar>" "\<bar>r\<bar> < 2 powi (e + 1)" "- 1022 \<le> e" "e < 1023"
    "\<bar>of_int z - \<bar>r\<bar> / 2 powi (e - 52)\<bar> < 1 / 2"
  shows "round_double r = Fin ((if 0 < r then 1 else - 1) * (of_int z * 2 powi (e - 52)))"
  using assms(1-4) round_half_even_eqI [OF assms(5)] by (rule round_double_normal_value)

lemma round_half_even_half:
  "round_half_even (of_int k + 1 / 2) = (if even k then k else k + 1)"
proof -
  have "\<lfloor>rat_of_int k + 1 / 2\<rfloor> = k" by (simp add: floor_eq_iff)
  then show ?thesis by (simp add: round_half_even_def Let_def)
qed

lemma round_half_even_ge: "of_int k \<le> m \<Longrightarrow> k \<le> round_half_even m"
proof -
  assume "of_int k \<le> m"
  then have "k \<le> \<lfloor>m\<rfloor>" by (simp add: le_floor_iff)
  then show ?thesis by (auto simp: round_half_even_def Let_def)
qed

lemma round_double_overflow:
  assumes "2 powi 1024 \<le> \<bar>r\<bar>"
  shows "round_double r = (if 0 < r then PInf else NInf)"
proof -
  let ?a = "\<bar>r\<bar>"
  have "(0::rat) < 2 powi 1024" by simp
  with assms have a: "0 < ?a" by linarith
  then have r: "r \<noteq> 0" by simp
  have e: "1024 \<le> exponent ?a" using a assms by (rule exponent_ge)
  then have q: "quantum ?a = 2 powi (exponent ?a - 52)"
    by (simp add: quantum_def max_def)
  have "2 powi exponent ?a \<le> ?a" using exponent_bounds [OF a] by (rule conjunct1)
  then have "2 powi exponent ?a / quantum ?a \<le> ?a / quantum ?a"
    by (rule divide_right_mono) (rule less_imp_le, rule quantum_pos)
  moreover have "2 powi exponent ?a / quantum ?a = (2::rat) powi 52"
    unfolding q by (subst power_int_diff [symmetric]) simp_all
  ultimately have "rat_of_int (2 ^ 52) \<le> ?a / quantum ?a" by simp
  then have "2 ^ 52 \<le> round_half_even (?a / quantum ?a)" by (rule round_half_even_ge)
  then have "rat_of_int (2 ^ 52) \<le> of_int (round_half_even (?a / quantum ?a))"
    by (simp only: of_int_le_iff)
  then have "rat_of_int (2 ^ 52) * quantum ?a \<le> round_mag ?a"
    unfolding round_mag_def by (rule mult_right_mono) (rule less_imp_le, rule quantum_pos)
  moreover have "rat_of_int (2 ^ 52) * quantum ?a = 2 powi exponent ?a"
  proof -
    have "(2::rat) powi 52 * 2 powi (exponent ?a - 52) = 2 powi (52 + (exponent ?a - 52))"
      by (subst power_int_add) simp_all
    then show ?thesis by (simp add: q)
  qed
  moreover have "(2::rat) powi 1024 \<le> 2 powi exponent ?a"
    using e by (intro power_int_increasing) simp_all
  ultimately have "2 powi 1024 \<le> round_mag ?a" by (simp only:)
  then have "(2 powi 1024 \<le> round_mag ?a) = True" by (simp only:)
  then show ?thesis
    unfolding round_double_def Let_def using r by (simp only: if_False if_True)
qed

lemma round_double_numeral:
  "numeral w < (2::int) ^ 53 \<Longrightarrow> round_double (numeral w) = Fin (numeral w)"
  using round_double_int [of "numeral w"] by simp

lemma round_double_zero: "round_double 0 = Fin 0"
  by (simp add: round_double_def)

lemma round_double_one: "round_double 1 = Fin 1"
  using round_double_int [of 1] by simp

subsection \<open>Truncation and the converter\<close>

lemma trunc_nonneg: "0 \<le> x \<Longrightarrow> trunc x = \<lfloor>x\<rfloor>"
  by (simp add: trunc_def)

lemma trunc_neg: "x < 0 \<Longrightarrow> trunc x = \<lceil>x\<rceil>"
  by (simp add: trunc_def ceiling_def)

lemma trunc_minus: "trunc (- x) = - trunc x"
  by (cases "x = 0") (auto simp: trunc_def)

lemma int_to_float_exact: "\<bar>x\<bar> < 2 ^ 53 \<Longrightarrow> int_to_float x = Inr (Fin (of_int x))"
  by (simp add: int_to_float_def round_double_int)

lemma round_double_thousandth:
  assumes "\<bar>x\<bar> < 2 ^ 53"
  shows "\<exists>y. round_double (of_int x / 1000) = Fin y \<and> trunc y = trunc (of_int x / 1000)"
proof (cases "x = 0")
  case True
  then show ?thesis by (simp add: round_double_def)
next
  case False
  let ?r = "of_int x / 1000 :: rat"
  let ?m = "round_mag (of_int \<bar>x\<bar> / 1000)"
  have k: "0 < \<bar>x\<bar>" using False by simp
  have fl: "\<lfloor>?m\<rfloor> = \<bar>x\<bar> div 1000"
    using k assms by (rule round_mag_thousandth)
  have a: "\<bar>?r\<bar> = of_int \<bar>x\<bar> / 1000" by simp
  have "(of_int \<bar>x\<bar> :: rat) < 2 ^ 53" using assms by (rule rat_of_int_less_power)
  then have "(of_int \<bar>x\<bar> / 1000 :: rat) < 2 ^ 53" by simp
  also have "(2::rat) ^ 53 \<le> 2 ^ 1023" by (rule power_increasing) simp_all
  finally have "(of_int \<bar>x\<bar> / 1000 :: rat) < 2 powi 1023" by simp
  moreover have "(0::rat) < of_int \<bar>x\<bar> / 1000" using k by simp
  ultimately have "?m < 2 powi 1024" by (intro round_mag_less)
  then have nov: "\<not> 2 powi 1024 \<le> ?m" by simp
  have m0: "0 \<le> ?m"
  proof -
    have "0 \<le> \<bar>x\<bar> div 1000" by simp
    with fl have "0 \<le> \<lfloor>?m\<rfloor>" by simp
    then show ?thesis by (simp only: zero_le_floor)
  qed
  have d: "\<lfloor>of_int \<bar>x\<bar> / 1000 :: rat\<rfloor> = \<bar>x\<bar> div 1000"
  proof -
    have "\<lfloor>rat_of_int \<bar>x\<bar> / rat_of_int 1000\<rfloor> = \<bar>x\<bar> div 1000"
      by (rule floor_divide_of_int_eq)
    then show ?thesis by simp
  qed
  show ?thesis
  proof (cases "0 < x")
    case True
    then have "round_double ?r = Fin ?m"
      using nov False by (simp add: round_double_def a Let_def)
    moreover have "trunc ?m = trunc ?r"
      using True m0 fl d by (simp add: trunc_nonneg)
    ultimately show ?thesis by blast
  next
    case neg: False
    with False have x: "x < 0" by simp
    then have "round_double ?r = Fin (- ?m)"
      using nov False by (simp add: round_double_def a Let_def)
    moreover have "trunc (- ?m) = trunc ?r"
    proof -
      have "?r = - (of_int \<bar>x\<bar> / 1000)" using x by simp
      then have "trunc ?r = - trunc (of_int \<bar>x\<bar> / 1000)" by (simp only: trunc_minus)
      also have "\<dots> = - (\<bar>x\<bar> div 1000)" using d by (simp add: trunc_nonneg)
      finally show ?thesis using m0 fl by (simp add: trunc_minus trunc_nonneg)
    qed
    ultimately show ?thesis by blast
  qed
qed

lemma converter_exact:
  assumes "py_float pf v = Inr (Fin (of_int x))" "\<bar>x\<bar> < 2 ^ 53"
  shows "sats_per_kb_to_sats_per_byte pf v = Inr (trunc (of_int x / 1000))"
proof -
  obtain y where "round_double (of_int x / 1000) = Fin y" "trunc y = trunc (of_int x / 1000)"
    using round_double_thousandth [OF assms(2)] by blast
  then show ?thesis
    by (simp add: sats_per_kb_to_sats_per_byte_def assms(1) float_div_def)
qed

lemma converter_int:
  "\<bar>x\<bar> < 2 ^ 53 \<Longrightarrow> sats_per_kb_to_sats_per_byte pf (JInt x) = Inr (trunc (of_int x / 1000))"
  by (rule converter_exact) (simp_all add: int_to_float_exact)

lemma converter_not_a_number:
  "sats_per_kb_to_sats_per_byte pf JNull = Inl TypeError"
  "pf s = None \<Longrightarrow> sats_per_kb_to_sats_per_byte pf (JString s) = Inl ValueError"
  by (simp_all add: sats_per_kb_to_sats_per_byte_def)

lemma int_float_int: "\<bar>x\<bar> < 2 ^ 53 \<Longrightarrow> int_float pf (JInt x) = Inr x"
  by (simp add: int_float_def int_to_float_exact trunc_def)

text \<open>
  \<^verbatim>\<open>int(float(v))\<close> rounds as well: \<open>2 ^ 53 + 1\<close> lies half way between two doubles
  and becomes the even one, and the string \<^verbatim>\<open>"inf"\<close> raises OverflowError.
\<close>

lemma int_float_rounds:
  "int_float pf (JInt 9007199254740993) = Inr 9007199254740992"
proof -
  have "round_half_even (\<bar>9007199254740993\<bar> / 2 powi (53 - 52)) = 4503599627370496"
    using round_half_even_half [of 4503599627370496] by simp
  then have "round_double 9007199254740993 = Fin 9007199254740992"
    by (subst round_double_normal_value [where e = 53 and z = 4503599627370496]) simp_all
  then show ?thesis
    by (simp add: int_float_def int_to_float_def trunc_def)
qed

lemma int_float_infinity:
  "pf s = Some PInf \<Longrightarrow> int_float pf (JString s) = Inl OverflowError"
  by (simp add: int_float_def)

lemma converter_finite:
  assumes "py_float pf v = Inr (Fin f)" "\<bar>f\<bar> < 2 ^ 1024"
  shows "\<exists>y. round_double (f / 1000) = Fin y \<and>
             sats_per_kb_to_sats_per_byte pf v = Inr (trunc y)"
proof -
  have "\<bar>f / 1000\<bar> = \<bar>f\<bar> / 1000" by simp
  also have "\<dots> < 2 ^ 1024 / 1000" using assms(2) by simp
  also have "\<dots> \<le> 2 ^ 1024 / (2::rat)" by (intro divide_left_mono) simp_all
  also have "\<dots> = 2 powi 1023" by simp
  finally obtain y where "round_double (f / 1000) = Fin y"
    using round_double_finite by blast
  then show ?thesis
    by (simp add: sats_per_kb_to_sats_per_byte_def assms(1) float_div_def)
qed

text \<open>
  The rounding and the errors are in the model: \<open>2 ^ 62\<close> gives the integer above the
  exact quotient 4611686018427387.904, and an infinity or an integer beyond the doubles
  raises OverflowError, a NaN ValueError.
\<close>

lemma converter_rounds_up:
  "sats_per_kb_to_sats_per_byte pf (JInt (2 ^ 62)) = Inr 4611686018427388"
proof -
  have a: "round_double (2 ^ 62) = Fin (2 ^ 62)"
    by (subst round_double_normal [where e = 62 and z = "2 ^ 52"])
       (simp_all add: power_int_minus_divide)
  have b: "round_double (2 ^ 62 / 1000) = Fin 4611686018427388"
    by (subst round_double_normal [where e = 52 and z = 4611686018427388])
       (simp_all add: power_int_minus_divide)
  have "int_to_float (2 ^ 62) = Inr (Fin (2 ^ 62))"
    using a by (simp add: int_to_float_def)
  then show ?thesis
    using b by (simp add: sats_per_kb_to_sats_per_byte_def float_div_def trunc_def)
qed

lemma converter_overflow:
  "sats_per_kb_to_sats_per_byte pf (JFloat NInf) = Inl OverflowError"
  "sats_per_kb_to_sats_per_byte pf (JFloat PInf) = Inl OverflowError"
  "sats_per_kb_to_sats_per_byte pf (JFloat NaN) = Inl ValueError"
  by (simp_all add: sats_per_kb_to_sats_per_byte_def float_div_def)

lemma converter_int_overflow:
  "sats_per_kb_to_sats_per_byte pf (JInt (- 2 * 10 ^ 308)) = Inl OverflowError"
proof -
  have "round_double (- 2 * 10 ^ 308) = NInf"
    by (subst round_double_overflow) simp_all
  then have "int_to_float (- 2 * 10 ^ 308) = Inl OverflowError"
    by (simp add: int_to_float_def)
  then show ?thesis by (simp add: sats_per_kb_to_sats_per_byte_def)
qed

subsection \<open>The window scan\<close>

lemma seen_empty: "\<not> lo < hi \<Longrightarrow> seen blocks lo hi P = False"
  by (auto simp: seen_def)

lemma seen_later: "seen blocks (lo + 1) hi P \<Longrightarrow> seen blocks lo hi P"
proof -
  assume "seen blocks (lo + 1) hi P"
  then obtain h b where "lo + 1 \<le> h" "h < hi" "blocks h = Some b" "P b"
    unfolding seen_def by blast
  then have "lo \<le> h \<and> h < hi \<and> blocks h = Some b \<and> P b" by simp
  then show ?thesis unfolding seen_def by blast
qed

lemma seen_step_None:
  assumes "lo < hi" "blocks lo = None"
  shows "seen blocks lo hi P = seen blocks (lo + 1) hi P"
proof
  assume "seen blocks lo hi P"
  then obtain h b where h: "lo \<le> h" "h < hi" "blocks h = Some b" "P b"
    by (auto simp: seen_def)
  with assms have "h \<noteq> lo" by auto
  with h have "lo + 1 \<le> h" by simp
  with h show "seen blocks (lo + 1) hi P" by (auto simp: seen_def)
next
  assume "seen blocks (lo + 1) hi P"
  then show "seen blocks lo hi P" by (rule seen_later)
qed

lemma seen_step_Some:
  assumes "lo < hi" "blocks lo = Some b"
  shows "seen blocks lo hi P = (P b \<or> seen blocks (lo + 1) hi P)"
proof
  assume "seen blocks lo hi P"
  then obtain h b' where h: "lo \<le> h" "h < hi" "blocks h = Some b'" "P b'"
    by (auto simp: seen_def)
  show "P b \<or> seen blocks (lo + 1) hi P"
  proof (cases "h = lo")
    case True
    with h assms show ?thesis by simp
  next
    case False
    with h have "lo + 1 \<le> h" by simp
    with h show ?thesis by (auto simp: seen_def)
  qed
next
  assume "P b \<or> seen blocks (lo + 1) hi P"
  then show "seen blocks lo hi P"
  proof
    assume "P b"
    with assms show ?thesis unfolding seen_def by (intro exI [of _ lo] exI [of _ b]) simp
  next
    assume "seen blocks (lo + 1) hi P"
    then show ?thesis by (rule seen_later)
  qed
qed

lemma mode_flags_empty: "\<not> lo < hi \<Longrightarrow> mode_flags fee_rate blocks lo hi res = res"
  by (simp add: mode_flags_def seen_empty)

lemma mode_flags_None:
  "lo < hi \<Longrightarrow> blocks lo = None \<Longrightarrow>
   mode_flags fee_rate blocks lo hi res = mode_flags fee_rate blocks (lo + 1) hi res"
  by (simp add: mode_flags_def seen_step_None)

lemma mode_flags_Some:
  "lo < hi \<Longrightarrow> blocks lo = Some b \<Longrightarrow>
   mode_flags fee_rate blocks lo hi res =
     mode_flags fee_rate blocks (lo + 1) hi (check_block fee_rate b res)"
  by (auto simp: mode_flags_def seen_step_Some check_block_def Let_def)

lemma scan_window_flags:
  "scan_window est blocks lo hi (cons_res, econs_res) =
     (mode_flags (conservative_fee_rate est) blocks lo hi cons_res,
      mode_flags (economic_fee_rate est) blocks lo hi econs_res)"
proof (induction est blocks lo hi "(cons_res, econs_res)" arbitrary: cons_res econs_res
       rule: scan_window.induct)
  case (1 est blocks lo hi cons_res econs_res)
  show ?case
  proof (cases "lo < hi")
    case False
    then show ?thesis
      by (subst scan_window.simps) (simp add: mode_flags_empty)
  next
    case True
    show ?thesis
    proof (cases "blocks lo")
      case None
      with True 1(1) show ?thesis
        by (subst scan_window.simps) (simp add: mode_flags_None)
    next
      case (Some b)
      with True 1(2) show ?thesis
        by (subst scan_window.simps) (simp add: mode_flags_Some)
    qed
  qed
qed

lemma scan_estimate_flags:
  "scan_estimate est blocks =
     (mode_flags (conservative_fee_rate est) blocks (block_height est + 1)
        (block_height est + conf_target est) no_flags,
      mode_flags (economic_fee_rate est) blocks (block_height est + 1)
        (block_height est + conf_target est) no_flags)"
  by (simp add: scan_estimate_def scan_window_flags)

subsection \<open>One estimate\<close>

lemma map_of_ensure_bucket:
  "map_of (ensure_bucket t rd) = (map_of rd)(t \<mapsto> lookup_bucket rd t)"
  by (auto simp: ensure_bucket_def lookup_bucket_def update_conv' split: option.splits)

lemma update_results_ensure_bucket:
  "update_results res t (ensure_bucket t rd) =
     Inr (AList.update t (increment res (lookup_bucket rd t)) (ensure_bucket t rd))"
  by (simp add: update_results_def map_of_ensure_bucket)

lemma process_estimate_eq:
  "process_estimate est blocks (cr, er) =
     Inr (AList.update (conf_target est)
            (increment (fst (scan_estimate est blocks)) (lookup_bucket cr (conf_target est)))
            (ensure_bucket (conf_target est) cr),
          AList.update (conf_target est)
            (increment (snd (scan_estimate est blocks)) (lookup_bucket er (conf_target est)))
            (ensure_bucket (conf_target est) er))"
  by (simp add: process_estimate_def Let_def update_results_ensure_bucket)

lemma map_of_counted:
  "map_of (AList.update t (increment res (lookup_bucket rd t)) (ensure_bucket t rd)) =
     (map_of rd)(t \<mapsto> increment res (lookup_bucket rd t))"
  by (simp add: update_conv' map_of_ensure_bucket)

lemma lookup_counted:
  "lookup_bucket (AList.update t (increment res (lookup_bucket rd t)) (ensure_bucket t rd)) t' =
     (if t' = t then increment res (lookup_bucket rd t) else lookup_bucket rd t')"
  by (simp add: lookup_bucket_def [of "AList.update t _ _"] map_of_counted)
     (simp add: lookup_bucket_def)

subsection \<open>All estimates\<close>

lemma classify_loop_returns: "\<exists>rs'. classify_loop ests blocks rs = Inr rs'"
proof (induction ests arbitrary: rs)
  case Nil
  show ?case by simp
next
  case (Cons est ests)
  obtain cr er where rs: "rs = (cr, er)" by (cases rs)
  show ?case using Cons.IH by (simp add: rs process_estimate_eq)
qed

text \<open>No count exceeds the number of estimates processed.\<close>

lemma counts_upto_mono: "counts_upto k b \<Longrightarrow> k \<le> k' \<Longrightarrow> counts_upto k' b"
  by (auto simp: counts_upto_def)

lemma counts_upto_increment: "counts_upto k b \<Longrightarrow> counts_upto (k + 1) (increment res b)"
  by (auto simp: counts_upto_def increment_def)

lemma counts_upto_lookup:
  assumes "0 \<le> k" "\<forall>(t, b)\<in>set rd. counts_upto k b"
  shows "counts_upto k (lookup_bucket rd t)"
proof (cases "map_of rd t")
  case None
  with assms(1) show ?thesis
    by (simp add: lookup_bucket_def initialize_results_def counts_upto_def)
next
  case (Some b)
  then have "(t, b) \<in> set rd" by (rule map_of_SomeD)
  with assms(2) Some show ?thesis by (auto simp: lookup_bucket_def)
qed

lemma set_update_subset: "set (AList.update k v al) \<subseteq> insert (k, v) (set al)"
  by (induction al) auto

lemma counts_upto_counted:
  assumes "0 \<le> k" "\<forall>(t, b)\<in>set rd. counts_upto k b"
  shows "\<forall>(t, b)\<in>set (AList.update ct (increment res (lookup_bucket rd ct))
                         (ensure_bucket ct rd)). counts_upto (k + 1) b"
proof -
  have l: "counts_upto (k + 1) (increment res (lookup_bucket rd ct))"
    using assms by (intro counts_upto_increment counts_upto_lookup)
  have i: "counts_upto (k + 1) initialize_results"
    using assms(1) by (simp add: initialize_results_def counts_upto_def)
  have r: "\<forall>(t, b)\<in>set rd. counts_upto (k + 1) b"
    using assms(2) by (auto intro: counts_upto_mono)
  have "set (ensure_bucket ct rd) \<subseteq> insert (ct, initialize_results) (set rd)"
    using set_update_subset [of ct initialize_results rd] by (auto simp: ensure_bucket_def)
  with i r have e: "\<forall>(t, b)\<in>set (ensure_bucket ct rd). counts_upto (k + 1) b"
    by auto
  show ?thesis
    using set_update_subset
      [of ct "increment res (lookup_bucket rd ct)" "ensure_bucket ct rd"] l e
    by auto
qed

lemma classify_loop_counts:
  assumes "classify_loop ests blocks (cr, er) = Inr (cr', er')" "0 \<le> k"
    "\<forall>(t, b)\<in>set cr. counts_upto k b" "\<forall>(t, b)\<in>set er. counts_upto k b"
  shows "(\<forall>(t, b)\<in>set cr'. counts_upto (k + int (length ests)) b)
       \<and> (\<forall>(t, b)\<in>set er'. counts_upto (k + int (length ests)) b)"
  using assms
proof (induction ests arbitrary: cr er k)
  case Nil
  then show ?case by simp
next
  case (Cons est ests)
  let ?ct = "conf_target est"
  let ?c1 = "AList.update ?ct
      (increment (fst (scan_estimate est blocks)) (lookup_bucket cr ?ct)) (ensure_bucket ?ct cr)"
  let ?e1 = "AList.update ?ct
      (increment (snd (scan_estimate est blocks)) (lookup_bucket er ?ct)) (ensure_bucket ?ct er)"
  from Cons.prems(1) have run: "classify_loop ests blocks (?c1, ?e1) = Inr (cr', er')"
    by (simp add: process_estimate_eq)
  have "0 \<le> k + 1" using Cons.prems(2) by simp
  moreover have "\<forall>(t, b)\<in>set ?c1. counts_upto (k + 1) b"
    using Cons.prems(2,3) by (rule counts_upto_counted)
  moreover have "\<forall>(t, b)\<in>set ?e1. counts_upto (k + 1) b"
    using Cons.prems(2,4) by (rule counts_upto_counted)
  ultimately have "(\<forall>(t, b)\<in>set cr'. counts_upto (k + 1 + int (length ests)) b)
       \<and> (\<forall>(t, b)\<in>set er'. counts_upto (k + 1 + int (length ests)) b)"
    by (rule Cons.IH [OF run])
  moreover have "k + 1 + int (length ests) = k + int (length (est # ests))" by simp
  ultimately show ?case by (simp only:)
qed

text \<open>The total of a list that is not empty is a positive double.\<close>

lemma int_truediv_twelve:
  assumes "0 < n" "n < 2 ^ 63"
  shows "\<exists>x. int_truediv n 12 = Inr (Fin x) \<and> round_double (of_int n / 12) = Fin x \<and> 0 < x"
proof -
  let ?r = "of_int n / 12 :: rat"
  have "(1::rat) \<le> of_int n" using assms(1) by simp
  then have "(1::rat) / 12 \<le> ?r" by simp
  moreover have "(2::rat) powi (- 1022) \<le> 2 powi (- 4)"
    by (intro power_int_increasing) simp_all
  moreover have "(2::rat) powi (- 4) \<le> 1 / 12" by (simp add: power_int_minus_divide)
  ultimately have lo: "2 powi (- 1022) \<le> ?r" by linarith
  have "(of_int n :: rat) < 2 ^ 63" using assms(2) by (rule rat_of_int_less_power)
  then have "?r < 2 ^ 63" by simp
  also have "(2::rat) ^ 63 \<le> 2 ^ 1023" by (rule power_increasing) simp_all
  finally have hi: "?r < 2 powi 1023" by simp
  obtain x where "round_double ?r = Fin x" "0 < x"
    using round_double_pos [OF lo hi] by blast
  then show ?thesis by (simp add: int_truediv_def)
qed

lemma int_to_float_count:
  assumes "\<bar>c\<bar> < 2 ^ 63"
  shows "int_to_float c = Inr (round_double (of_int c))"
proof -
  have "\<bar>rat_of_int c\<bar> = rat_of_int \<bar>c\<bar>" by simp
  also have "\<dots> < 2 ^ 63" using assms by (rule rat_of_int_less_power)
  also have "(2::rat) ^ 63 \<le> 2 ^ 1023" by (rule power_increasing) simp_all
  finally have "\<bar>rat_of_int c\<bar> < 2 powi 1023" by simp
  then obtain x where "round_double (of_int c) = Fin x"
    using round_double_finite by blast
  then show ?thesis by (simp add: int_to_float_def)
qed

lemma percentage_spec:
  "total' \<noteq> Fin 0 \<Longrightarrow> \<bar>c\<bar> < 2 ^ 63 \<Longrightarrow> percentage total' c = Inr (spec_percentage total' c)"
  by (simp add: percentage_def int_to_float_count float_div_def spec_percentage_def)

lemma add_percentages_spec:
  assumes "total' \<noteq> Fin 0" "counts_upto k b" "k < 2 ^ 63"
  shows "add_percentages total' b = Inr (with_percentages total' b)"
proof -
  from assms(2,3) have "\<bar>underpaid b\<bar> < 2 ^ 63" "\<bar>overpaid b\<bar> < 2 ^ 63"
      "\<bar>within_the_range b\<bar> < 2 ^ 63"
    by (simp_all add: counts_upto_def)
  with assms(1) show ?thesis
    by (simp add: add_percentages_def percentage_spec with_percentages_def)
qed

lemma calculate_percentage_spec:
  assumes "total' \<noteq> Fin 0" "k < 2 ^ 63" "\<forall>(t, b)\<in>set results. counts_upto k b"
  shows "calculate_percentage total' results =
           Inr (map (\<lambda>(t, b). (t, with_percentages total' b)) results)"
  using assms(3)
proof (induction results)
  case Nil
  show ?case by simp
next
  case (Cons p results)
  obtain t b where p: "p = (t, b)" by (cases p)
  with Cons.prems have "counts_upto k b" by simp
  then have "add_percentages total' b = Inr (with_percentages total' b)"
    using assms(1,2) by (intro add_percentages_spec)
  moreover have "calculate_percentage total' results =
           Inr (map (\<lambda>(t, b). (t, with_percentages total' b)) results)"
    using Cons by simp
  ultimately show ?case by (simp add: p)
qed

text \<open>The division by zero is in the model: a bucket with a zero total raises.\<close>

lemma calculate_percentage_zero:
  assumes "\<bar>underpaid b\<bar> < 2 ^ 63"
  shows "calculate_percentage (Fin 0) ((t, b) # rest) = Inl ZeroDivisionError"
  using assms
  by (simp add: add_percentages_def percentage_def int_to_float_count float_div_def)

text \<open>
  The rounding is in the model: three estimates of five in one category give the double
  below 720, as \<^verbatim>\<open>(3 / (5 / 12)) * 100\<close> does.
\<close>

lemma percentage_three_of_five:
  "int_truediv 5 12 = Inr (Fin (7505999378950827 / 18014398509481984))"
  "percentage (Fin (7505999378950827 / 18014398509481984)) 3 =
     Inr (Fin (6333186975989759 / 8796093022208))"
  "(6333186975989759 / 8796093022208 :: rat) < 720"
proof -
  have t: "round_double (5 / 12) = Fin (7505999378950827 / 18014398509481984)"
    by (subst round_double_normal [where e = "- 2" and z = 7505999378950827])
       (simp_all add: power_int_minus_divide)
  then show "int_truediv 5 12 = Inr (Fin (7505999378950827 / 18014398509481984))"
    by (simp add: int_truediv_def)
  have u: "round_double (3 / (7505999378950827 / 18014398509481984)) =
             Fin (2026619832316723 / 281474976710656)"
    by (subst round_double_normal [where e = 2 and z = 8106479329266892])
       (simp_all add: power_int_minus_divide)
  have w: "round_double (2026619832316723 / 281474976710656 * 100) =
             Fin (6333186975989759 / 8796093022208)"
    by (subst round_double_normal [where e = 9 and z = 6333186975989759])
       (simp_all add: power_int_minus_divide)
  have "int_to_float 3 = Inr (Fin 3)"
    using int_to_float_exact [of 3] by simp
  then show "percentage (Fin (7505999378950827 / 18014398509481984)) 3 =
     Inr (Fin (6333186975989759 / 8796093022208))"
    using u w by (simp add: percentage_def float_div_def)
  show "(6333186975989759 / 8796093022208 :: rat) < 720" by simp
qed

subsection \<open>The trimmer\<close>

lemma sanity_check_data_dropWhile:
  "sanity_check_data es m = rev (dropWhile (\<lambda>e. m - 1008 < block_height e) (rev es))"
proof (induction es m rule: sanity_check_data.induct)
  case (1 estimates m)
  show ?case
  proof (cases "estimates = []")
    case True
    then show ?thesis by (simp add: sanity_check_data.simps)
  next
    case False
    then obtain xs x where e: "estimates = xs @ [x]"
      by (metis rev_exhaust)
    show ?thesis
    proof (cases "m - 1008 < block_height x")
      case True
      with 1 e show ?thesis
        by (subst sanity_check_data.simps) simp
    next
      case False
      with e show ?thesis
        by (subst sanity_check_data.simps) simp
    qed
  qed
qed

lemma sorted_dropWhile_filter:
  "sorted_wrt (\<lambda>a b. block_height a \<le> block_height b) es \<Longrightarrow>
   rev (dropWhile (\<lambda>e. c < block_height e) (rev es)) = filter (\<lambda>e. block_height e \<le> c) es"
proof (induction es rule: rev_induct)
  case Nil
  then show ?case by simp
next
  case (snoc x xs)
  then have s: "sorted_wrt (\<lambda>a b. block_height a \<le> block_height b) xs"
    and le: "\<forall>y\<in>set xs. block_height y \<le> block_height x"
    by (auto simp: sorted_wrt_append)
  show ?case
  proof (cases "c < block_height x")
    case True
    with snoc.IH [OF s] show ?thesis by simp
  next
    case False
    with le have "\<forall>y\<in>set xs. block_height y \<le> c" by auto
    then have "filter (\<lambda>e. block_height e \<le> c) xs = xs" by simp
    with False show ?thesis by simp
  qed
qed

subsection \<open>The loaders\<close>

text \<open>What the two handlers let through and what they catch.\<close>

lemma read_fees_raises:
  "read_fees pf data = Inl KeyError \<Longrightarrow>
   read_and_process_file (Inr data) (read_fees pf) = Inl KeyError"
  by (simp add: read_and_process_file_def)

lemma read_fees_caught:
  "read_fees pf data = Inl ValueError \<Longrightarrow>
   read_and_process_file (Inr data) (read_fees pf) = Inr []"
  by (simp add: read_and_process_file_def)

lemma read_blocks_loop_skips:
  "read_block pf b = Inl e \<Longrightarrow> e = ValueError \<or> e = KeyError \<Longrightarrow>
   read_blocks_loop pf (b # bs) (filtered_blocks, printed) =
     read_blocks_loop pf bs (filtered_blocks, printed @ [e])"
  by auto

lemma read_blocks_loop_raises:
  "read_block pf b = Inl TypeError \<Longrightarrow>
   read_blocks_loop pf (b # bs) (filtered_blocks, printed) = Inl TypeError"
  by simp

lemma read_block_null:
  "\<bar>h\<bar> < 2 ^ 53 \<Longrightarrow> read_block pf (block_record h JNull v50) = Inl TypeError"
  by (simp add: read_block_def block_record_def int_float_int converter_not_a_number)

section \<open>The claims\<close>

subsection \<open>The classifier\<close>

text \<open>
  C1. Every estimate is counted once per mode, in the bucket of its confirmation target
  and by priority: \<^emph>\<open>overpaid\<close> when the overpaid flag was set during the scan, else
  \<^emph>\<open>within the range\<close> when the within-range flag was set, else \<^emph>\<open>underpaid\<close>. The
  loop body always returns; the bucket of the target has exactly that one counter raised
  by one, and the buckets of all other targets are as before.
\<close>

theorem process_estimate_priority:
  "\<exists>cons' econs'.
     process_estimate est blocks (cons_result, econs_result) = Inr (cons', econs')
     \<and> lookup_bucket cons' (conf_target est) =
         (let b = lookup_bucket cons_result (conf_target est);
              res = fst (scan_estimate est blocks)
          in if overpaid_flag res then b\<lparr>overpaid := overpaid b + 1\<rparr>
             else if within_flag res then b\<lparr>within_the_range := within_the_range b + 1\<rparr>
             else b\<lparr>underpaid := underpaid b + 1\<rparr>)
     \<and> lookup_bucket econs' (conf_target est) =
         (let b = lookup_bucket econs_result (conf_target est);
              res = snd (scan_estimate est blocks)
          in if overpaid_flag res then b\<lparr>overpaid := overpaid b + 1\<rparr>
             else if within_flag res then b\<lparr>within_the_range := within_the_range b + 1\<rparr>
             else b\<lparr>underpaid := underpaid b + 1\<rparr>)
     \<and> (\<forall>t. t \<noteq> conf_target est \<longrightarrow>
            map_of cons' t = map_of cons_result t \<and> map_of econs' t = map_of econs_result t)"
proof -
  define ct where "ct = conf_target est"
  define cons' where "cons' = AList.update ct
      (increment (fst (scan_estimate est blocks)) (lookup_bucket cons_result ct))
      (ensure_bucket ct cons_result)"
  define econs' where "econs' = AList.update ct
      (increment (snd (scan_estimate est blocks)) (lookup_bucket econs_result ct))
      (ensure_bucket ct econs_result)"
  have r: "process_estimate est blocks (cons_result, econs_result) = Inr (cons', econs')"
    by (simp add: process_estimate_eq cons'_def econs'_def ct_def)
  have c: "lookup_bucket cons' ct =
      increment (fst (scan_estimate est blocks)) (lookup_bucket cons_result ct)"
    by (simp add: cons'_def lookup_counted)
  have e: "lookup_bucket econs' ct =
      increment (snd (scan_estimate est blocks)) (lookup_bucket econs_result ct)"
    by (simp add: econs'_def lookup_counted)
  have o: "\<forall>t. t \<noteq> ct \<longrightarrow>
      map_of cons' t = map_of cons_result t \<and> map_of econs' t = map_of econs_result t"
    by (simp add: cons'_def econs'_def map_of_counted)
  from r c e o show ?thesis
    unfolding ct_def increment_def Let_def by blast
qed

text \<open>
  The fixture estimate, with a bucket for target 3 already there: it is counted as
  within the range in both modes, and the bucket of target 3 is untouched.
\<close>

lemma fixture_scan:
  "scan_estimate (fixture_estimate 10) fixture_blocks =
     (\<lparr>underpaid_flag = False, overpaid_flag = False, within_flag = True\<rparr>,
      \<lparr>underpaid_flag = False, overpaid_flag = False, within_flag = True\<rparr>)"
  by code_simp

theorem process_estimate_priority_witness:
  "\<exists>cons' econs'.
     process_estimate (fixture_estimate 10) fixture_blocks ([(3, initialize_results)], []) =
       Inr (cons', econs')
     \<and> lookup_bucket cons' 2 = \<lparr>underpaid = 0, overpaid = 0, within_the_range = 1\<rparr>
     \<and> lookup_bucket econs' 2 = \<lparr>underpaid = 0, overpaid = 0, within_the_range = 1\<rparr>
     \<and> map_of cons' 3 = Some initialize_results"
proof -
  have t: "conf_target (fixture_estimate 10) = 2"
    by (simp add: fixture_estimate_def)
  have b: "lookup_bucket [(3, initialize_results)] 2 =
             \<lparr>underpaid = 0, overpaid = 0, within_the_range = 0\<rparr>"
     "lookup_bucket [] 2 = \<lparr>underpaid = 0, overpaid = 0, within_the_range = 0\<rparr>"
    by (simp_all add: lookup_bucket_def initialize_results_def)
  from process_estimate_priority
    [of "fixture_estimate 10" fixture_blocks "[(3, initialize_results)]" "[]"]
  obtain cons' econs' where
    "process_estimate (fixture_estimate 10) fixture_blocks ([(3, initialize_results)], []) =
       Inr (cons', econs')"
    "lookup_bucket cons' 2 = \<lparr>underpaid = 0, overpaid = 0, within_the_range = 1\<rparr>"
    "lookup_bucket econs' 2 = \<lparr>underpaid = 0, overpaid = 0, within_the_range = 1\<rparr>"
    "map_of cons' 3 = Some initialize_results"
    unfolding t fixture_scan b by (auto simp: Let_def)
  then show ?thesis by blast
qed

text \<open>
  C2. The scan visits exactly the heights \<open>h\<close> with
  \<open>block_height + 1 \<le> h < block_height + conf_target\<close>: each flag is set if and only if
  a height of that range has a block in the mapping that passes the flag's test. A height
  without a block contributes to no flag, and the scan is a total function: with no block
  in the range it ends with no flag set.
\<close>

theorem scan_estimate_window:
  "(underpaid_flag (fst (scan_estimate est blocks)) \<longleftrightarrow>
      (\<exists>h b. block_height est + 1 \<le> h \<and> h < block_height est + conf_target est
             \<and> blocks h = Some b \<and> conservative_fee_rate est < p_5 b))
   \<and> (overpaid_flag (fst (scan_estimate est blocks)) \<longleftrightarrow>
      (\<exists>h b. block_height est + 1 \<le> h \<and> h < block_height est + conf_target est
             \<and> blocks h = Some b \<and> conservative_fee_rate est > p_50 b))
   \<and> (within_flag (fst (scan_estimate est blocks)) \<longleftrightarrow>
      (\<exists>h b. block_height est + 1 \<le> h \<and> h < block_height est + conf_target est
             \<and> blocks h = Some b \<and> conservative_fee_rate est \<le> p_50 b))
   \<and> (underpaid_flag (snd (scan_estimate est blocks)) \<longleftrightarrow>
      (\<exists>h b. block_height est + 1 \<le> h \<and> h < block_height est + conf_target est
             \<and> blocks h = Some b \<and> economic_fee_rate est < p_5 b))
   \<and> (overpaid_flag (snd (scan_estimate est blocks)) \<longleftrightarrow>
      (\<exists>h b. block_height est + 1 \<le> h \<and> h < block_height est + conf_target est
             \<and> blocks h = Some b \<and> economic_fee_rate est > p_50 b))
   \<and> (within_flag (snd (scan_estimate est blocks)) \<longleftrightarrow>
      (\<exists>h b. block_height est + 1 \<le> h \<and> h < block_height est + conf_target est
             \<and> blocks h = Some b \<and> economic_fee_rate est \<le> p_50 b))
   \<and> ((\<forall>h. block_height est + 1 \<le> h \<and> h < block_height est + conf_target est
            \<longrightarrow> blocks h = None)
        \<longrightarrow> scan_estimate est blocks = (no_flags, no_flags))"
  by (simp add: scan_estimate_flags mode_flags_def seen_def no_flags_def)

text \<open>
  On the fixture the block at height 101 sets the within-range flag; with no blocks at all
  no flag is set.
\<close>

theorem scan_estimate_window_witness:
  "within_flag (fst (scan_estimate (fixture_estimate 10) fixture_blocks))
   \<and> scan_estimate (fixture_estimate 10) Map.empty = (no_flags, no_flags)"
proof -
  have "\<exists>h b. block_height (fixture_estimate 10) + 1 \<le> h
          \<and> h < block_height (fixture_estimate 10) + conf_target (fixture_estimate 10)
          \<and> fixture_blocks h = Some b \<and> conservative_fee_rate (fixture_estimate 10) \<le> p_50 b"
    by (intro exI [of _ 101] exI [of _ "\<lparr>conf_height = 101, p_5 = 5, p_50 = 20\<rparr>"])
       (simp add: fixture_estimate_def fixture_blocks_def)
  then have 1: "within_flag (fst (scan_estimate (fixture_estimate 10) fixture_blocks))"
    using scan_estimate_window [of "fixture_estimate 10" fixture_blocks] by simp
  have "\<forall>h. block_height (fixture_estimate 10) + 1 \<le> h
          \<and> h < block_height (fixture_estimate 10) + conf_target (fixture_estimate 10)
          \<longrightarrow> (Map.empty :: int \<rightharpoonup> block) h = None"
    by simp
  then have 2: "scan_estimate (fixture_estimate 10) Map.empty = (no_flags, no_flags)"
    using scan_estimate_window [of "fixture_estimate 10" Map.empty] by simp
  from 1 2 show ?thesis by simp
qed

text \<open>
  C3, as the specification words it, has the conservative underpaid flag set at height
  102. With \<^verbatim>\<open>block_height = 100\<close> and \<^verbatim>\<open>conf_target = 2\<close> the loop runs while
  \<^verbatim>\<open>curr_height < 102\<close>, so height 102 is not visited and the flag stays false.
\<close>

theorem fixture_underpaid_flag_not_set:
  "\<not> underpaid_flag (fst (scan_estimate (fixture_estimate 10) fixture_blocks))"
  by code_simp

text \<open>
  C3, amended. For the estimate with \<^verbatim>\<open>conf_target = 2\<close>, \<^verbatim>\<open>block_height = 100\<close>,
  \<^verbatim>\<open>conservative_fee_rate = 10\<close> and the blocks 101 (\<open>p_5 = 5\<close>, \<open>p_50 = 20\<close>) and 102
  (\<open>p_5 = 12\<close>, \<open>p_50 = 20\<close>), only height 101 is scanned: the conservative
  within-range flag is set there, the underpaid and the overpaid flag are never set,
  whatever stands at height 102 makes no difference, and the estimate is counted as
  within the range.
\<close>

theorem fixture_classification:
  "fst (scan_estimate (fixture_estimate e) fixture_blocks) =
     \<lparr>underpaid_flag = False, overpaid_flag = False, within_flag = True\<rparr>
   \<and> scan_estimate (fixture_estimate e) (fixture_blocks(102 := b102)) =
       scan_estimate (fixture_estimate e) fixture_blocks
   \<and> (\<exists>econs'. process_estimate (fixture_estimate e) fixture_blocks ([], []) =
         Inr ([(2, \<lparr>underpaid = 0, overpaid = 0, within_the_range = 1\<rparr>)], econs'))"
proof -
  have w: "seen bl 101 102 P = (case bl 101 of None \<Rightarrow> False | Some b \<Rightarrow> P b)" for bl P
    by (cases "bl 101") (simp_all add: seen_step_None seen_step_Some seen_empty)
  have a: "fst (scan_estimate (fixture_estimate e) fixture_blocks) =
     \<lparr>underpaid_flag = False, overpaid_flag = False, within_flag = True\<rparr>"
    by (simp add: scan_estimate_flags mode_flags_def no_flags_def fixture_estimate_def w
        fixture_blocks_def)
  have b: "scan_estimate (fixture_estimate e) (fixture_blocks(102 := b102)) =
       scan_estimate (fixture_estimate e) fixture_blocks"
    by (simp add: scan_estimate_flags mode_flags_def no_flags_def fixture_estimate_def w)
  have c: "\<exists>econs'. process_estimate (fixture_estimate e) fixture_blocks ([], []) =
         Inr ([(2, \<lparr>underpaid = 0, overpaid = 0, within_the_range = 1\<rparr>)], econs')"
    by (simp add: process_estimate_eq a increment_def)
       (simp add: fixture_estimate_def ensure_bucket_def lookup_bucket_def initialize_results_def)
  from a b c show ?thesis by simp
qed

text \<open>
  C9. For each mode, an estimate is counted as underpaid if and only if no height of its
  scan window has a block in the mapping: a visited block sets the overpaid flag or the
  within-range flag. The underpaid flag has no part in the decision.
\<close>

theorem underpaid_iff_window_empty:
  "(\<exists>cons' econs'.
      process_estimate est blocks (cons_result, econs_result) = Inr (cons', econs')
      \<and> ((underpaid (lookup_bucket cons' (conf_target est)) =
             underpaid (lookup_bucket cons_result (conf_target est)) + 1)
          \<longleftrightarrow> (\<forall>h. block_height est + 1 \<le> h \<and> h < block_height est + conf_target est
                    \<longrightarrow> blocks h = None))
      \<and> ((underpaid (lookup_bucket econs' (conf_target est)) =
             underpaid (lookup_bucket econs_result (conf_target est)) + 1)
          \<longleftrightarrow> (\<forall>h. block_height est + 1 \<le> h \<and> h < block_height est + conf_target est
                    \<longrightarrow> blocks h = None)))
   \<and> update_results (res\<lparr>underpaid_flag := u\<rparr>) target result_dict =
       update_results res target result_dict"
proof -
  have inc: "underpaid (increment f b) = underpaid b + 1 \<longleftrightarrow> \<not> overpaid_flag f \<and> \<not> within_flag f"
    for f b
    by (simp add: increment_def)
  have hit: "(\<not> seen blocks lo hi (\<lambda>b. fee > p_50 b) \<and> \<not> seen blocks lo hi (\<lambda>b. fee \<le> p_50 b))
      \<longleftrightarrow> (\<forall>h. lo \<le> h \<and> h < hi \<longrightarrow> blocks h = None)" for fee lo hi :: int
    unfolding seen_def by (metis not_le option.exhaust option.distinct(1))
  have fl: "(\<not> overpaid_flag (mode_flags fee blocks lo hi no_flags)
             \<and> \<not> within_flag (mode_flags fee blocks lo hi no_flags))
      \<longleftrightarrow> (\<forall>h. lo \<le> h \<and> h < hi \<longrightarrow> blocks h = None)" for fee lo hi :: int
    using hit [of lo hi fee] by (simp add: mode_flags_def no_flags_def)
  have u: "update_results (res\<lparr>underpaid_flag := u\<rparr>) target result_dict =
       update_results res target result_dict"
  proof -
    have "increment (res\<lparr>underpaid_flag := u\<rparr>) b = increment res b" for b
      by (simp add: increment_def)
    then show ?thesis by (simp add: update_results_def split: option.splits)
  qed
  show ?thesis
    by (simp add: process_estimate_eq lookup_counted inc scan_estimate_flags fl u)
qed

text \<open>
  Without any block the fixture estimate is counted as underpaid in both modes.
\<close>

theorem underpaid_iff_window_empty_witness:
  "\<exists>cons' econs'.
      process_estimate (fixture_estimate 10) Map.empty ([], []) = Inr (cons', econs')
      \<and> underpaid (lookup_bucket cons' 2) = 1 \<and> underpaid (lookup_bucket econs' 2) = 1"
proof -
  have e: "\<forall>h. block_height (fixture_estimate 10) + 1 \<le> h
             \<and> h < block_height (fixture_estimate 10) + conf_target (fixture_estimate 10)
             \<longrightarrow> (Map.empty :: int \<rightharpoonup> block) h = None"
    by simp
  have t: "conf_target (fixture_estimate 10) = 2"
    by (simp add: fixture_estimate_def)
  have b: "underpaid (lookup_bucket [] 2) = 0"
    by (simp add: lookup_bucket_def initialize_results_def)
  from underpaid_iff_window_empty [of "fixture_estimate 10" Map.empty "[]" "[]"] e
  show ?thesis
    unfolding t by (simp add: b)
qed

subsection \<open>The percentages\<close>

text \<open>
  C8. After the classification \<open>total = count(estimates) / 12\<close> is computed once, and
  \<^verbatim>\<open>calculate_percentages\<close> returns (a list has fewer than \<open>2 ^ 63\<close> elements):
  every bucket of both result dicts keeps its counts and gets, for every category, the
  percentage \<open>(category_count / total) * 100\<close>, a float computed from that one total and
  not from the bucket's own count. Twelve estimates, six to a bucket and all six in one
  category, give \<open>total = 1\<close> and 600 per cent for that category.
\<close>

theorem calculate_percentages_fixed_divisor:
  "(length estimates < 2 ^ 63 \<longrightarrow>
      (\<exists>cons_result econs_result.
         classify_loop estimates blocks ([], []) = Inr (cons_result, econs_result)
         \<and> calculate_percentages estimates blocks =
             Inr (map (\<lambda>(t, b). (t, with_percentages
                         (round_double (of_nat (length estimates) / 12)) b)) cons_result,
                  map (\<lambda>(t, b). (t, with_percentages
                         (round_double (of_nat (length estimates) / 12)) b)) econs_result)))
   \<and> calculate_percentages twelve_estimates fixture_blocks =
       Inr ([(2, \<lparr>underpaid = 0, overpaid = 0, within_the_range = 6,
                 underpaid_perc = Fin 0, overpaid_perc = Fin 0,
                 within_the_range_perc = Fin 600\<rparr>),
             (3, \<lparr>underpaid = 0, overpaid = 0, within_the_range = 6,
                 underpaid_perc = Fin 0, overpaid_perc = Fin 0,
                 within_the_range_perc = Fin 600\<rparr>)],
            [(2, \<lparr>underpaid = 0, overpaid = 6, within_the_range = 0,
                 underpaid_perc = Fin 0, overpaid_perc = Fin 600,
                 within_the_range_perc = Fin 0\<rparr>),
             (3, \<lparr>underpaid = 0, overpaid = 6, within_the_range = 0,
                 underpaid_perc = Fin 0, overpaid_perc = Fin 600,
                 within_the_range_perc = Fin 0\<rparr>)])"
proof -
  let ?n = "length estimates"
  let ?total = "round_double (of_nat ?n / 12)"
  have g: "\<exists>cons_result econs_result.
         classify_loop estimates blocks ([], []) = Inr (cons_result, econs_result)
         \<and> calculate_percentages estimates blocks =
             Inr (map (\<lambda>(t, b). (t, with_percentages ?total b)) cons_result,
                  map (\<lambda>(t, b). (t, with_percentages ?total b)) econs_result)"
    if n: "?n < 2 ^ 63"
  proof -
    obtain cons_result econs_result where
      c: "classify_loop estimates blocks ([], []) = Inr (cons_result, econs_result)"
      using classify_loop_returns [of estimates blocks "([], [])"] by auto
    have "calculate_percentages estimates blocks =
             Inr (map (\<lambda>(t, b). (t, with_percentages ?total b)) cons_result,
                  map (\<lambda>(t, b). (t, with_percentages ?total b)) econs_result)"
    proof (cases "estimates = []")
      case True
      with c show ?thesis
        by (simp add: calculate_percentages_def int_truediv_def round_double_def)
    next
      case False
      have "int ?n < int (2 ^ 63)" using n by (simp only: of_nat_less_iff)
      then have k: "int ?n < 2 ^ 63" by simp
      have "0 < int ?n" using False by simp
      then obtain x where t: "int_truediv (int ?n) 12 = Inr (Fin x)"
          "round_double (of_int (int ?n) / 12) = Fin x" "0 < x"
        using k int_truediv_twelve by blast
      then have tot: "?total = Fin x" by simp
      have nz: "Fin x \<noteq> Fin 0" using t(3) by simp
      have b: "(\<forall>(t, b)\<in>set cons_result. counts_upto (0 + int ?n) b)
             \<and> (\<forall>(t, b)\<in>set econs_result. counts_upto (0 + int ?n) b)"
        by (rule classify_loop_counts [OF c]) simp_all
      then have cb: "\<forall>(t, b)\<in>set cons_result. counts_upto (int ?n) b"
        and eb: "\<forall>(t, b)\<in>set econs_result. counts_upto (int ?n) b"
        by simp_all
      have "calculate_percentage (Fin x) cons_result =
            Inr (map (\<lambda>(t, b). (t, with_percentages (Fin x) b)) cons_result)"
        using nz k cb by (rule calculate_percentage_spec)
      moreover have "calculate_percentage (Fin x) econs_result =
            Inr (map (\<lambda>(t, b). (t, with_percentages (Fin x) b)) econs_result)"
        using nz k eb by (rule calculate_percentage_spec)
      ultimately show ?thesis
        by (simp add: calculate_percentages_def c t(1) tot)
    qed
    with c show ?thesis by blast
  qed
  have cl: "classify_loop twelve_estimates fixture_blocks ([], []) =
       Inr ([(2, \<lparr>underpaid = 0, overpaid = 0, within_the_range = 6\<rparr>),
             (3, \<lparr>underpaid = 0, overpaid = 0, within_the_range = 6\<rparr>)],
            [(2, \<lparr>underpaid = 0, overpaid = 6, within_the_range = 0\<rparr>),
             (3, \<lparr>underpaid = 0, overpaid = 6, within_the_range = 0\<rparr>)])"
    by code_simp
  have len: "length twelve_estimates = 12" by (simp add: twelve_estimates_def)
  have tot: "int_truediv 12 12 = Inr (Fin 1)"
    by (simp add: int_truediv_def round_double_one)
  have p: "percentage (Fin 1) 0 = Inr (Fin 0)" "percentage (Fin 1) 6 = Inr (Fin 600)"
    using int_to_float_exact [of 0] int_to_float_exact [of 6]
    by (simp_all add: percentage_def float_div_def round_double_numeral round_double_zero)
  have x: "calculate_percentages twelve_estimates fixture_blocks =
       Inr ([(2, \<lparr>underpaid = 0, overpaid = 0, within_the_range = 6,
                 underpaid_perc = Fin 0, overpaid_perc = Fin 0,
                 within_the_range_perc = Fin 600\<rparr>),
             (3, \<lparr>underpaid = 0, overpaid = 0, within_the_range = 6,
                 underpaid_perc = Fin 0, overpaid_perc = Fin 0,
                 within_the_range_perc = Fin 600\<rparr>)],
            [(2, \<lparr>underpaid = 0, overpaid = 6, within_the_range = 0,
                 underpaid_perc = Fin 0, overpaid_perc = Fin 600,
                 within_the_range_perc = Fin 0\<rparr>),
             (3, \<lparr>underpaid = 0, overpaid = 6, within_the_range = 0,
                 underpaid_perc = Fin 0, overpaid_perc = Fin 600,
                 within_the_range_perc = Fin 0\<rparr>)])"
    by (simp add: calculate_percentages_def cl len tot add_percentages_def p)
  from g x show ?thesis by blast
qed

text \<open>
  For the twelve estimates the total is the double 1, and every bucket gets its
  percentages from it.
\<close>

theorem calculate_percentages_fixed_divisor_witness:
  "\<exists>cons_result econs_result.
     classify_loop twelve_estimates fixture_blocks ([], []) = Inr (cons_result, econs_result)
     \<and> calculate_percentages twelve_estimates fixture_blocks =
         Inr (map (\<lambda>(t, b). (t, with_percentages (Fin 1) b)) cons_result,
              map (\<lambda>(t, b). (t, with_percentages (Fin 1) b)) econs_result)"
proof -
  have len: "length twelve_estimates = 12" by (simp add: twelve_estimates_def)
  have h: "length twelve_estimates < 2 ^ 63" by (simp add: len)
  have t: "round_double (of_nat (length twelve_estimates) / 12) = Fin 1"
    by (simp add: len round_double_one)
  from calculate_percentages_fixed_divisor [of twelve_estimates fixture_blocks]
  have "length twelve_estimates < 2 ^ 63 \<longrightarrow>
      (\<exists>cons_result econs_result.
         classify_loop twelve_estimates fixture_blocks ([], []) = Inr (cons_result, econs_result)
         \<and> calculate_percentages twelve_estimates fixture_blocks =
             Inr (map (\<lambda>(t, b). (t, with_percentages
                         (round_double (of_nat (length twelve_estimates) / 12)) b)) cons_result,
                  map (\<lambda>(t, b). (t, with_percentages
                         (round_double (of_nat (length twelve_estimates) / 12)) b)) econs_result))"
    by (rule conjunct1)
  with h show ?thesis
    unfolding t by blast
qed

text \<open>
  C10. Without estimates \<^verbatim>\<open>calculate_percentages\<close> returns two empty result dicts
  and raises nothing: the total is zero, but there is no bucket to divide for.
\<close>

theorem calculate_percentages_empty:
  "calculate_percentages [] blocks = Inr ([], [])"
  by (simp add: calculate_percentages_def int_truediv_def round_double_def)

subsection \<open>The range trimmer\<close>

text \<open>
  C4. \<^verbatim>\<open>sanity_check_data\<close> removes estimates from the tail as long as the list is
  not empty and \<open>maximum_block_height - 1008\<close> is below the height of the last one. On a
  list ordered by increasing height and with the maximum 2000, exactly the estimates of
  height at most 992 remain: 992 is kept, 993 and everything above is removed.
\<close>

theorem sanity_check_data_trims_tail:
  "sanity_check_data es m = rev (dropWhile (\<lambda>e. m - 1008 < block_height e) (rev es))
   \<and> (sorted_wrt (\<lambda>a b. block_height a \<le> block_height b) es \<longrightarrow>
        sanity_check_data es 2000 = filter (\<lambda>e. block_height e \<le> 992) es)"
  by (simp add: sanity_check_data_dropWhile sorted_dropWhile_filter)

text \<open>
  Four estimates at the heights 500, 992, 993 and 1500: the first two remain.
\<close>

theorem sanity_check_data_trims_tail_witness:
  "sanity_check_data [estimate_at 500, estimate_at 992, estimate_at 993, estimate_at 1500] 2000
     = [estimate_at 500, estimate_at 992]"
proof -
  have "sorted_wrt (\<lambda>a b. block_height a \<le> block_height b)
          [estimate_at 500, estimate_at 992, estimate_at 993, estimate_at 1500]"
    by (simp add: estimate_at_def)
  then show ?thesis
    using sanity_check_data_trims_tail
      [of "[estimate_at 500, estimate_at 992, estimate_at 993, estimate_at 1500]" 2000]
    by (simp add: estimate_at_def)
qed

subsection \<open>The unit converter\<close>

text \<open>
  C5, as the specification words it, has the converter return \<open>floor (x / 1000)\<close> for
  every numeric input. At \<open>x = -1\<close> the converter returns 0, and the floor is \<open>-1\<close>.
\<close>

theorem converter_not_floor_on_negative:
  "sats_per_kb_to_sats_per_byte Map.empty (JInt (- 1)) = Inr 0
   \<and> sats_per_kb_to_sats_per_byte Map.empty (JInt (- 1)) \<noteq> Inr \<lfloor>(- 1 :: rat) / 1000\<rfloor>"
proof -
  have "trunc (rat_of_int (- 1) / 1000) = 0"
    by (simp add: trunc_def floor_eq_iff)
  then have "sats_per_kb_to_sats_per_byte Map.empty (JInt (- 1)) = Inr 0"
    using converter_int [of "- 1" Map.empty] by simp
  moreover have "\<lfloor>(- 1 :: rat) / 1000\<rfloor> = - 1"
    by (simp add: floor_eq_iff)
  ultimately show ?thesis by simp
qed

text \<open>
  C5, amended. For every finite number \<open>x\<close>, and every string that \<^verbatim>\<open>float\<close> reads as
  one, the converter returns the double quotient \<^verbatim>\<open>float(x) / 1000\<close> with the
  fractional part dropped towards zero, and raises nothing, also on a negative or zero
  input. For every integer \<open>x\<close> with \<open>\<bar>x\<bar> < 2 ^ 53\<close>, given as a number or as a
  string, that is the exact quotient \<open>x / 1000\<close> truncated towards zero: the floor for
  \<open>x \<ge> 0\<close>, the ceiling for \<open>x < 0\<close>. It maps 5000 to 5, 1999 to 1 and 0 to 0.
\<close>

theorem converter_truncates:
  "(py_float pf v = Inr (Fin f) \<and> \<bar>f\<bar> < 2 ^ 1024 \<longrightarrow>
      (\<exists>y. round_double (f / 1000) = Fin y
           \<and> sats_per_kb_to_sats_per_byte pf v = Inr (if 0 \<le> y then \<lfloor>y\<rfloor> else \<lceil>y\<rceil>)))
   \<and> (\<bar>x\<bar> < 2 ^ 53 \<longrightarrow>
        sats_per_kb_to_sats_per_byte pf (JInt x) =
          Inr (if 0 \<le> x then \<lfloor>rat_of_int x / 1000\<rfloor> else \<lceil>rat_of_int x / 1000\<rceil>)
        \<and> (pf s = Some (Fin (of_int x)) \<longrightarrow>
             sats_per_kb_to_sats_per_byte pf (JString s) =
               Inr (if 0 \<le> x then \<lfloor>rat_of_int x / 1000\<rfloor> else \<lceil>rat_of_int x / 1000\<rceil>)))
   \<and> sats_per_kb_to_sats_per_byte pf (JInt 5000) = Inr 5
   \<and> sats_per_kb_to_sats_per_byte pf (JInt 1999) = Inr 1
   \<and> sats_per_kb_to_sats_per_byte pf (JInt 0) = Inr 0"
proof -
  have tr: "trunc y = (if 0 \<le> y then \<lfloor>y\<rfloor> else \<lceil>y\<rceil>)" for y
    by (simp add: trunc_nonneg trunc_neg not_le)
  have tx: "trunc (rat_of_int x / 1000) =
      (if 0 \<le> x then \<lfloor>rat_of_int x / 1000\<rfloor> else \<lceil>rat_of_int x / 1000\<rceil>)"
    by (simp add: tr)
  have a: "\<exists>y. round_double (f / 1000) = Fin y
           \<and> sats_per_kb_to_sats_per_byte pf v = Inr (if 0 \<le> y then \<lfloor>y\<rfloor> else \<lceil>y\<rceil>)"
    if "py_float pf v = Inr (Fin f)" "\<bar>f\<bar> < 2 ^ 1024"
    using converter_finite [OF that] by (simp only: tr)
  have b: "sats_per_kb_to_sats_per_byte pf (JInt x) =
          Inr (if 0 \<le> x then \<lfloor>rat_of_int x / 1000\<rfloor> else \<lceil>rat_of_int x / 1000\<rceil>)"
    if "\<bar>x\<bar> < 2 ^ 53"
    using converter_int [OF that, of pf] by (simp only: tx)
  have c: "sats_per_kb_to_sats_per_byte pf (JString s) =
          Inr (if 0 \<le> x then \<lfloor>rat_of_int x / 1000\<rfloor> else \<lceil>rat_of_int x / 1000\<rceil>)"
    if "\<bar>x\<bar> < 2 ^ 53" "pf s = Some (Fin (of_int x))"
  proof -
    have "py_float pf (JString s) = Inr (Fin (of_int x))" using that(2) by simp
    then show ?thesis
      using converter_exact [of pf "JString s" x] that(1) by (simp only: tx)
  qed
  have d: "sats_per_kb_to_sats_per_byte pf (JInt 5000) = Inr 5"
      "sats_per_kb_to_sats_per_byte pf (JInt 1999) = Inr 1"
      "sats_per_kb_to_sats_per_byte pf (JInt 0) = Inr 0"
    using converter_int [of 5000 pf] converter_int [of 1999 pf] converter_int [of 0 pf]
    by (simp_all add: trunc_def floor_eq_iff)
  from a b c d show ?thesis by blast
qed

text \<open>
  The string \<^verbatim>\<open>"-2500"\<close>, read as \<open>-2500\<close>, gives \<open>-2\<close>; the float 1999.5 gives 1.
\<close>

theorem converter_truncates_witness:
  "sats_per_kb_to_sats_per_byte [''-2500'' \<mapsto> Fin (- 2500)] (JString ''-2500'') = Inr (- 2)
   \<and> sats_per_kb_to_sats_per_byte [''-2500'' \<mapsto> Fin (- 2500)] (JFloat (Fin (3999 / 2))) = Inr 1"
proof -
  let ?pf = "[''-2500'' \<mapsto> Fin (- 2500)]"
  have h1: "\<bar>- 2500 :: int\<bar> < 2 ^ 53" by simp
  have h2: "?pf ''-2500'' = Some (Fin (of_int (- 2500)))" by simp
  have h3: "py_float ?pf (JFloat (Fin (3999 / 2))) = Inr (Fin (3999 / 2))
      \<and> \<bar>3999 / 2 :: rat\<bar> < 2 ^ 1024"
    by simp
  have r: "round_double (3999 / 2 / 1000) = Fin (9004947454927307 / 4503599627370496)"
    by (subst round_double_normal [where e = 0 and z = 9004947454927307])
       (simp_all add: power_int_minus_divide)
  have f: "\<lfloor>9004947454927307 / 4503599627370496 :: rat\<rfloor> = 1"
    "\<lceil>rat_of_int (- 2500) / 1000\<rceil> = - 2"
    by (simp_all add: floor_eq_iff ceiling_eq_iff)
  from converter_truncates [of ?pf "JFloat (Fin (3999 / 2))" "3999 / 2" "- 2500" "''-2500''"]
    h1 h2 h3
  have "(\<exists>y. round_double (3999 / 2 / 1000) = Fin y
           \<and> sats_per_kb_to_sats_per_byte ?pf (JFloat (Fin (3999 / 2))) =
               Inr (if 0 \<le> y then \<lfloor>y\<rfloor> else \<lceil>y\<rceil>))"
    "sats_per_kb_to_sats_per_byte ?pf (JString ''-2500'') =
       Inr (if 0 \<le> (- 2500 :: int) then \<lfloor>rat_of_int (- 2500) / 1000\<rfloor>
            else \<lceil>rat_of_int (- 2500) / 1000\<rceil>)"
    by blast+
  then obtain y where y: "round_double (3999 / 2 / 1000) = Fin y"
      "sats_per_kb_to_sats_per_byte ?pf (JFloat (Fin (3999 / 2))) =
         Inr (if 0 \<le> y then \<lfloor>y\<rfloor> else \<lceil>y\<rceil>)"
    and s: "sats_per_kb_to_sats_per_byte ?pf (JString ''-2500'') =
       Inr (if 0 \<le> (- 2500 :: int) then \<lfloor>rat_of_int (- 2500) / 1000\<rfloor>
            else \<lceil>rat_of_int (- 2500) / 1000\<rceil>)"
    by blast
  from y(1) have "Fin y = Fin (9004947454927307 / 4503599627370496)"
    by (simp only: r)
  then have "y = 9004947454927307 / 4503599627370496"
    by (simp only: pyfloat.inject)
  with y(2) have "sats_per_kb_to_sats_per_byte ?pf (JFloat (Fin (3999 / 2))) = Inr 1"
    by (simp add: f(1))
  moreover from s have "sats_per_kb_to_sats_per_byte ?pf (JString ''-2500'') = Inr (- 2)"
    by (simp only: f(2)) simp
  ultimately show ?thesis by (rule conjI [rotated])
qed

subsection \<open>The data loader\<close>

text \<open>
  C6. A fees file of three records, the second without \<^verbatim>\<open>block_height\<close>: the
  KeyError of that record is not among the exceptions \<^verbatim>\<open>read_and_process_file\<close>
  handles, so it leaves the function instead of giving the empty list.
\<close>

theorem read_fees_missing_height_raises:
  "read_and_process_file
     (Inr [fee_record 100 (JInt 5000), fee_record_without_height, fee_record 101 (JInt 5000)])
     (read_fees Map.empty) = Inl KeyError"
  by (simp add: read_and_process_file_def read_fee_def fee_record_def
      fee_record_without_height_def converter_int converter_not_a_number int_float_int
      trunc_def)

text \<open>
  The paths of the fees load that do what the docstring of
  \<^verbatim>\<open>read_and_process_file\<close> says: a value that is no number raises ValueError and gives
  the empty list, as does a file that cannot be read or parsed; a valid file gives its
  estimates, the rates per byte.
\<close>

lemma read_fees_bad_string_empty:
  "read_and_process_file
     (Inr [fee_record 100 (JInt 5000), fee_record 101 (JString ''abc'')])
     (read_fees Map.empty) = Inr []"
  by (simp add: read_and_process_file_def read_fee_def fee_record_def
      fee_record_without_height_def converter_int converter_not_a_number int_float_int
      trunc_def)

lemma read_fees_valid:
  "read_and_process_file (Inr [fee_record 100 (JInt 5000)]) (read_fees Map.empty) =
     Inr [\<lparr>conf_target = 2, block_height = 100, conservative_fee_rate = 5,
          economic_fee_rate = 3\<rparr>]"
  by (simp add: read_and_process_file_def read_fee_def fee_record_def
      fee_record_without_height_def converter_int converter_not_a_number int_float_int
      trunc_def)

lemma read_and_process_file_unreadable:
  "read_and_process_file (Inl IOError) read_function = Inr []"
  "read_and_process_file (Inl ValueError) read_function = Inr []"
  by (simp_all add: read_and_process_file_def)

text \<open>
  C7. A blocks file of three records, the second with \<^verbatim>\<open>null\<close> for \<^verbatim>\<open>p_5\<close>:
  \<^verbatim>\<open>float(None)\<close> raises TypeError, which the handler of \<^verbatim>\<open>read_blocks\<close> does not
  name, so the record is not skipped and the exception leaves the function.
\<close>

theorem read_blocks_null_value_raises:
  "read_blocks Map.empty
     [block_record 101 (JInt 5000) (JInt 20000),
      block_record 102 JNull (JInt 20000),
      block_record 103 (JInt 5000) (JInt 20000)] = Inl TypeError"
  by (simp add: read_blocks_def read_block_def block_record_def int_float_int
      converter_int converter_not_a_number trunc_def)

text \<open>
  The records the handler does skip: one with a string that is no number (ValueError) and
  one without \<^verbatim>\<open>p_5\<close> (KeyError). Each is printed once, and the two valid records
  give two entries.
\<close>

lemma read_blocks_skips_value_error:
  "read_blocks Map.empty
     [block_record 101 (JInt 5000) (JInt 20000),
      block_record 102 (JString ''abc'') (JInt 20000),
      block_record 103 (JInt 5000) (JInt 20000)] =
   Inr ([101 \<mapsto> \<lparr>conf_height = 101, p_5 = 5, p_50 = 20\<rparr>,
         103 \<mapsto> \<lparr>conf_height = 103, p_5 = 5, p_50 = 20\<rparr>], [ValueError])"
  by (simp add: read_blocks_def read_block_def block_record_def int_float_int
      converter_int converter_not_a_number trunc_def)

lemma read_blocks_skips_key_error:
  "read_blocks Map.empty
     [block_record 101 (JInt 5000) (JInt 20000),
      JObject [(''block_height'', JInt 102), (''p_50'', JInt 20000)],
      block_record 103 (JInt 5000) (JInt 20000)] =
   Inr ([101 \<mapsto> \<lparr>conf_height = 101, p_5 = 5, p_50 = 20\<rparr>,
         103 \<mapsto> \<lparr>conf_height = 103, p_5 = 5, p_50 = 20\<rparr>], [KeyError])"
  by (simp add: read_blocks_def read_block_def block_record_def int_float_int
      converter_int converter_not_a_number trunc_def)

end
